theory Spec2Isabelle
  imports Complex_Main "HOL-Library.Multiset" "HOL-Library.Sublist"
begin

section \<open>Data model of \<open>map.js\<close>\<close>

text \<open>
  A JavaScript number as far as \<open>map.js\<close> computes with it: an integer, or \<open>NaN\<close>
  (what \<open>getHours()\<close> of an \<open>Invalid Date\<close> returns). Arithmetic propagates \<open>NaN\<close>.
\<close>

datatype number = Num int | NaN

fun num_mul :: "number \<Rightarrow> number \<Rightarrow> number" where
  "num_mul (Num a) (Num b) = Num (a * b)"
| "num_mul _ _ = NaN"

fun num_add :: "number \<Rightarrow> number \<Rightarrow> number" where
  "num_add (Num a) (Num b) = Num (a + b)"
| "num_add _ _ = NaN"

text \<open>
  A \<open>Date\<close> object: its time value in milliseconds, taken in local time (the time zone
  adjustment already applied), or \<open>Invalid Date\<close>, which is what \<open>new Date(s)\<close> gives
  for a string that does not parse. \<open>getHours\<close> and \<open>getMinutes\<close> are ECMAScript's
  \<open>HourFromTime\<close> and \<open>MinFromTime\<close> of the local time.
\<close>

datatype date = Date int | Invalid_Date

fun getHours :: "date \<Rightarrow> number" where
  "getHours (Date t) = Num ((t div 3600000) mod 24)"
| "getHours Invalid_Date = NaN"

fun getMinutes :: "date \<Rightarrow> number" where
  "getMinutes (Date t) = Num ((t div 60000) mod 60)"
| "getMinutes Invalid_Date = NaN"

text \<open>A row of the trip table, after the row conversion turned both stamps into dates.\<close>

record trip =
  start_station_id :: string
  end_station_id :: string
  started_at :: date
  ended_at :: date

text \<open>A station of the station list, and the record \<open>computeStationTraffic\<close> derives
  from it (\<open>{...station, departures, arrivals, totalTraffic}\<close>).\<close>

record station =
  short_name :: string
  lon :: real
  lat :: real

record station_traffic = station +
  departures :: nat
  arrivals :: nat
  totalTraffic :: nat

text \<open>The two global bucket tables.\<close>

record buckets =
  departuresByMinute :: "trip list list"
  arrivalsByMinute :: "trip list list"

text \<open>\<open>Array.from({ length: 1440 }, () => [])\<close>, for both tables.\<close>

definition empty_table :: "trip list list" where
  "empty_table = replicate 1440 []"

definition initial_buckets :: buckets where
  "initial_buckets = \<lparr>departuresByMinute = empty_table, arrivalsByMinute = empty_table\<rparr>"

section \<open>Helpers\<close>

definition minutesSinceMidnight :: "date \<Rightarrow> number" where
  "minutesSinceMidnight d = num_add (num_mul (getHours d) (Num 60)) (getMinutes d)"

text \<open>The remainder operator \<open>%\<close> on integers: truncating, the sign follows the dividend.\<close>

definition js_rem :: "int \<Rightarrow> int \<Rightarrow> int" where
  "js_rem a b = sgn a * (\<bar>a\<bar> mod \<bar>b\<bar>)"

text \<open>
  \<open>Array.prototype.slice(start, end)\<close>: a negative index counts from the end, and both
  are clamped to the array. \<open>slice_from\<close> is the call with one argument.
\<close>

definition slice :: "'a list \<Rightarrow> int \<Rightarrow> int \<Rightarrow> 'a list" where
  "slice xs start end =
     (let len = int (length xs);
          k = (if start < 0 then max (len + start) 0 else min start len);
          final = (if end < 0 then max (len + end) 0 else min end len)
      in take (nat (final - k)) (drop (nat k) xs))"

definition slice_from :: "'a list \<Rightarrow> int \<Rightarrow> 'a list" where
  "slice_from xs start = slice xs start (int (length xs))"

section \<open>The window query\<close>

text \<open>\<open>flat()\<close> on an array of arrays of trips is \<open>concat\<close>.\<close>

definition filterByMinute :: "'a list list \<Rightarrow> int \<Rightarrow> 'a list" where
  "filterByMinute tripsByMinute minute =
     (if minute = -1 then concat tripsByMinute
      else
        let minMinute = js_rem (minute - 60 + 1440) 1440;
            maxMinute = js_rem (minute + 60) 1440
        in if minMinute > maxMinute then
             (let beforeMidnight = slice_from tripsByMinute minMinute;
                  afterMidnight = slice tripsByMinute 0 maxMinute
              in concat (beforeMidnight @ afterMidnight))
           else concat (slice tripsByMinute minMinute maxMinute))"

text \<open>The window as the specification words it: the bucket indices it names.\<close>

definition window_spec :: "int \<Rightarrow> nat list" where
  "window_spec centerMinute =
     (if centerMinute = -1 then [0..<1440]
      else
        let minMinute = nat ((centerMinute - 60 + 1440) mod 1440);
            maxMinute = nat ((centerMinute + 60) mod 1440)
        in if minMinute \<le> maxMinute then [minMinute..<maxMinute]
           else [minMinute..<1440] @ [0..<maxMinute])"

text \<open>The table whose bucket \<open>i\<close> holds just the index \<open>i\<close>: running the query on it
  lists the bucket indices the query traverses.\<close>

definition index_table :: "nat list list" where
  "index_table = map (\<lambda>i. [i]) [0..<1440]"

section \<open>The bucketing pass\<close>

datatype js_error = TypeError

text \<open>
  \<open>table[m].push(x)\<close> for a number \<open>m\<close>: \<open>table[m]\<close> is the bucket when \<open>m\<close> is an
  index of the table and \<open>undefined\<close> otherwise (in particular for \<open>NaN\<close>), and
  \<open>push\<close> on \<open>undefined\<close> throws a \<open>TypeError\<close>.
\<close>

fun push_at :: "'a list list \<Rightarrow> number \<Rightarrow> 'a \<Rightarrow> js_error + 'a list list" where
  "push_at table (Num i) x =
     (if 0 \<le> i \<and> i < int (length table)
      then Inr (table[nat i := table ! nat i @ [x]])
      else Inl TypeError)"
| "push_at table NaN x = Inl TypeError"

text \<open>
  The callback of \<open>trips.forEach\<close>. The tables are global, so what was pushed before an
  exception stays pushed: a failure carries the tables as the exception leaves them.
\<close>

definition bucket_trip :: "buckets \<Rightarrow> trip \<Rightarrow> (js_error \<times> buckets) + buckets" where
  "bucket_trip globals trip =
     (let started = minutesSinceMidnight (started_at trip);
          ended = minutesSinceMidnight (ended_at trip)
      in case push_at (departuresByMinute globals) started trip of
           Inl e \<Rightarrow> Inl (e, globals)
         | Inr deps \<Rightarrow>
             (let globals1 = globals\<lparr>departuresByMinute := deps\<rparr>
              in case push_at (arrivalsByMinute globals1) ended trip of
                   Inl e \<Rightarrow> Inl (e, globals1)
                 | Inr arrs \<Rightarrow> Inr (globals1\<lparr>arrivalsByMinute := arrs\<rparr>)))"

text \<open>\<open>Array.prototype.forEach\<close> with a callback that may throw: the first exception
  ends the loop.\<close>

fun forEach :: "('s \<Rightarrow> 'a \<Rightarrow> ('e \<times> 's) + 's) \<Rightarrow> 's \<Rightarrow> 'a list \<Rightarrow> ('e \<times> 's) + 's" where
  "forEach f s [] = Inr s"
| "forEach f s (x # xs) = (case f s x of Inl e \<Rightarrow> Inl e | Inr s' \<Rightarrow> forEach f s' xs)"

definition trips_forEach :: "buckets \<Rightarrow> trip list \<Rightarrow> (js_error \<times> buckets) + buckets" where
  "trips_forEach globals trips = forEach bucket_trip globals trips"

text \<open>The derived attributes of a trip, and what the specification calls a valid
  minute of the day.\<close>

definition start_minute :: "trip \<Rightarrow> number" where
  "start_minute trip = minutesSinceMidnight (started_at trip)"

definition end_minute :: "trip \<Rightarrow> number" where
  "end_minute trip = minutesSinceMidnight (ended_at trip)"

fun valid_minute :: "number \<Rightarrow> bool" where
  "valid_minute (Num i) = (0 \<le> i \<and> i < 1440)"
| "valid_minute NaN = False"

text \<open>A table after the elements \<open>xs\<close> were pushed, each to the slot of its minute.\<close>

definition pushed :: "('a \<Rightarrow> number) \<Rightarrow> 'a list list \<Rightarrow> 'a list \<Rightarrow> 'a list list" where
  "pushed minute table xs =
     map (\<lambda>i. table ! i @ filter (\<lambda>x. minute x = Num (int i)) xs) [0..<length table]"

section \<open>The traffic aggregator\<close>

text \<open>
  Modelled from the spec: \<open>d3.rollup(values, reduce, key)\<close> is the d3-array library's and
  not in the repository. It groups the values by their key in a map, pushing each value to
  the group of its key (a new group when the key is new), and maps every group to
  \<open>reduce(group)\<close>; \<open>get\<close> on a key with no group is \<open>undefined\<close>, here \<open>None\<close>.
\<close>

fun group :: "('a \<Rightarrow> 'k) \<Rightarrow> 'a list \<Rightarrow> ('k \<rightharpoonup> 'a list) \<Rightarrow> ('k \<rightharpoonup> 'a list)" where
  "group keyof [] groups = groups"
| "group keyof (v # vs) groups =
     group keyof vs
       (case groups (keyof v) of
          Some g \<Rightarrow> groups(keyof v \<mapsto> g @ [v])
        | None \<Rightarrow> groups(keyof v \<mapsto> [v]))"

definition rollup :: "'a list \<Rightarrow> ('a list \<Rightarrow> 'b) \<Rightarrow> ('a \<Rightarrow> 'k) \<Rightarrow> ('k \<rightharpoonup> 'b)" where
  "rollup vs reduce keyof = (\<lambda>k. map_option reduce (group keyof vs Map.empty k))"

text \<open>
  \<open>computeStationTraffic\<close> reads the two global tables; they are the first argument.
  The time filter is an integer (the default \<open>-1\<close> stands for an omitted argument;
  every call in \<open>map.js\<close> passes one). \<open>x ?? 0\<close> is 0 when the map has no entry.
  The object literal \<open>{...station, departures, arrivals, totalTraffic}\<close> is the
  extension of the station record by the three counts.
\<close>

definition computeStationTraffic :: "buckets \<Rightarrow> station list \<Rightarrow> int \<Rightarrow> station_traffic list" where
  "computeStationTraffic globals stations timeFilter =
     (let departures =
            rollup (filterByMinute (departuresByMinute globals) timeFilter) length start_station_id;
          arrivals =
            rollup (filterByMinute (arrivalsByMinute globals) timeFilter) length end_station_id
      in map (\<lambda>station.
           let id = short_name station;
               depCount = (case departures id of Some n \<Rightarrow> n | None \<Rightarrow> 0);
               arrCount = (case arrivals id of Some n \<Rightarrow> n | None \<Rightarrow> 0)
           in station.extend station
                (station_traffic.fields depCount arrCount (depCount + arrCount)))
         stations)"

text \<open>The counts \<open>computeStationTraffic\<close> gives a station: the trips of the window that
  carry its name.\<close>

definition dep_count :: "buckets \<Rightarrow> int \<Rightarrow> station \<Rightarrow> nat" where
  "dep_count globals timeFilter station =
     length (filter (\<lambda>t. start_station_id t = short_name station)
       (filterByMinute (departuresByMinute globals) timeFilter))"

definition arr_count :: "buckets \<Rightarrow> int \<Rightarrow> station \<Rightarrow> nat" where
  "arr_count globals timeFilter station =
     length (filter (\<lambda>t. end_station_id t = short_name station)
       (filterByMinute (arrivalsByMinute globals) timeFilter))"

section \<open>A small data set\<close>

text \<open>Three stations and one trip, from \<open>A\<close> at minute 700 to \<open>B\<close> at minute 705;
  a second trip whose end stamp did not parse.\<close>

definition station_A :: station where
  "station_A = \<lparr>short_name = ''A'', lon = 0, lat = 0\<rparr>"

definition station_B :: station where
  "station_B = \<lparr>short_name = ''B'', lon = 1, lat = 0\<rparr>"

definition station_C :: station where
  "station_C = \<lparr>short_name = ''C'', lon = 0, lat = 1\<rparr>"

definition trip_AB :: trip where
  "trip_AB = \<lparr>start_station_id = ''A'', end_station_id = ''B'',
     started_at = Date 42000000, ended_at = Date 42300000\<rparr>"

definition trip_bad :: trip where
  "trip_bad = \<lparr>start_station_id = ''B'', end_station_id = ''C'',
     started_at = Date 600000, ended_at = Invalid_Date\<rparr>"

definition buckets_AB :: buckets where
  "buckets_AB = \<lparr>departuresByMinute = empty_table[700 := [trip_AB]],
                  arrivalsByMinute = empty_table[705 := [trip_AB]]\<rparr>"

section \<open>The same functions on a store of objects\<close>

text \<open>
  In \<open>map.js\<close> arrays and records are objects, and a variable holds a reference. To
  say what a call leaves untouched, the functions are modelled a second time on a store:
  a heap of objects addressed by their position, where an array holds references and every
  array or object a call creates is appended. \<open>slice\<close>, \<open>concat\<close>, \<open>flat\<close> and \<open>map\<close>
  create a new array; the object literal in the callback of \<open>stations.map\<close> creates a
  new object. The map that \<open>d3.rollup\<close> builds never leaves the call and is kept as
  a value; its keys are what \<open>d => d.start_station_id\<close> reads from the referenced
  object, \<open>undefined\<close> (here \<open>None\<close>) for an object that is no trip. A result
  \<open>None\<close> is a call on a reference that is no array (or no station), which cannot
  arise from the data \<open>map.js\<close> loads.
\<close>

type_synonym ref = nat

datatype obj = Array "ref list" | Trip trip | Station station | Traffic station_traffic

record store =
  heap :: "obj list"
  departuresByMinute_ref :: ref
  arrivalsByMinute_ref :: ref

definition deref :: "obj list \<Rightarrow> ref \<Rightarrow> obj option" where
  "deref h r = (if r < length h then Some (h ! r) else None)"

definition array_at :: "obj list \<Rightarrow> ref \<Rightarrow> ref list option" where
  "array_at h r = (case deref h r of Some (Array rs) \<Rightarrow> Some rs | _ \<Rightarrow> None)"

definition trip_at :: "obj list \<Rightarrow> ref \<Rightarrow> trip option" where
  "trip_at h r = (case deref h r of Some (Trip t) \<Rightarrow> Some t | _ \<Rightarrow> None)"

definition station_at :: "obj list \<Rightarrow> ref \<Rightarrow> station option" where
  "station_at h r = (case deref h r of Some (Station st) \<Rightarrow> Some st | _ \<Rightarrow> None)"

definition traffic_at :: "obj list \<Rightarrow> ref \<Rightarrow> station_traffic option" where
  "traffic_at h r = (case deref h r of Some (Traffic st) \<Rightarrow> Some st | _ \<Rightarrow> None)"

definition alloc :: "store \<Rightarrow> obj \<Rightarrow> ref \<times> store" where
  "alloc s v = (length (heap s), s\<lparr>heap := heap s @ [v]\<rparr>)"

definition slice_ref :: "store \<Rightarrow> ref \<Rightarrow> int \<Rightarrow> int \<Rightarrow> (ref \<times> store) option" where
  "slice_ref s a start end =
     (case array_at (heap s) a of
        None \<Rightarrow> None
      | Some rs \<Rightarrow> Some (alloc s (Array (slice rs start end))))"

definition slice_from_ref :: "store \<Rightarrow> ref \<Rightarrow> int \<Rightarrow> (ref \<times> store) option" where
  "slice_from_ref s a start =
     (case array_at (heap s) a of
        None \<Rightarrow> None
      | Some rs \<Rightarrow> Some (alloc s (Array (slice_from rs start))))"

definition concat_ref :: "store \<Rightarrow> ref \<Rightarrow> ref \<Rightarrow> (ref \<times> store) option" where
  "concat_ref s a b =
     (case array_at (heap s) a of
        None \<Rightarrow> None
      | Some xs \<Rightarrow>
          Some (alloc s (Array (xs @ (case array_at (heap s) b of Some ys \<Rightarrow> ys | None \<Rightarrow> [b])))))"

definition flat_ref :: "store \<Rightarrow> ref \<Rightarrow> (ref \<times> store) option" where
  "flat_ref s a =
     (case array_at (heap s) a of
        None \<Rightarrow> None
      | Some rs \<Rightarrow>
          Some (alloc s (Array (concat
            (map (\<lambda>r. case array_at (heap s) r of Some es \<Rightarrow> es | None \<Rightarrow> [r]) rs)))))"

definition filterByMinute_ref :: "store \<Rightarrow> ref \<Rightarrow> int \<Rightarrow> (ref \<times> store) option" where
  "filterByMinute_ref s tripsByMinute minute =
     (if minute = -1 then flat_ref s tripsByMinute
      else
        let minMinute = js_rem (minute - 60 + 1440) 1440;
            maxMinute = js_rem (minute + 60) 1440
        in if minMinute > maxMinute then
             (case slice_from_ref s tripsByMinute minMinute of
                None \<Rightarrow> None
              | Some (beforeMidnight, s1) \<Rightarrow>
                  (case slice_ref s1 tripsByMinute 0 maxMinute of
                     None \<Rightarrow> None
                   | Some (afterMidnight, s2) \<Rightarrow>
                       (case concat_ref s2 beforeMidnight afterMidnight of
                          None \<Rightarrow> None
                        | Some (both, s3) \<Rightarrow> flat_ref s3 both)))
           else
             (case slice_ref s tripsByMinute minMinute maxMinute of
                None \<Rightarrow> None
              | Some (window, s1) \<Rightarrow> flat_ref s1 window))"

fun map_ref :: "(store \<Rightarrow> ref \<Rightarrow> (ref \<times> store) option) \<Rightarrow> store \<Rightarrow> ref list \<Rightarrow>
    (ref list \<times> store) option" where
  "map_ref f s [] = Some ([], s)"
| "map_ref f s (r # rs) =
     (case f s r of
        None \<Rightarrow> None
      | Some (r', s1) \<Rightarrow>
          (case map_ref f s1 rs of
             None \<Rightarrow> None
           | Some (rs', s2) \<Rightarrow> Some (r' # rs', s2)))"

definition array_map :: "store \<Rightarrow> ref \<Rightarrow> (store \<Rightarrow> ref \<Rightarrow> (ref \<times> store) option) \<Rightarrow>
    (ref \<times> store) option" where
  "array_map s a f =
     (case array_at (heap s) a of
        None \<Rightarrow> None
      | Some rs \<Rightarrow>
          (case map_ref f s rs of
             None \<Rightarrow> None
           | Some (rs', s1) \<Rightarrow> Some (alloc s1 (Array rs'))))"

definition traffic_record :: "(string option \<rightharpoonup> nat) \<Rightarrow> (string option \<rightharpoonup> nat) \<Rightarrow>
    store \<Rightarrow> ref \<Rightarrow> (ref \<times> store) option" where
  "traffic_record departures arrivals s station =
     (case deref (heap s) station of
        Some (Station st) \<Rightarrow>
          (let id = short_name st;
               depCount = (case departures (Some id) of Some n \<Rightarrow> n | None \<Rightarrow> 0);
               arrCount = (case arrivals (Some id) of Some n \<Rightarrow> n | None \<Rightarrow> 0)
           in Some (alloc s (Traffic (station.extend st
                 (station_traffic.fields depCount arrCount (depCount + arrCount))))))
      | Some (Traffic st) \<Rightarrow>
          (let id = short_name st;
               depCount = (case departures (Some id) of Some n \<Rightarrow> n | None \<Rightarrow> 0);
               arrCount = (case arrivals (Some id) of Some n \<Rightarrow> n | None \<Rightarrow> 0)
           in Some (alloc s (Traffic (st\<lparr>departures := depCount, arrivals := arrCount,
                 totalTraffic := depCount + arrCount\<rparr>))))
      | _ \<Rightarrow> None)"
  for departures arrivals

text \<open>What an array of the store holds (nothing, for a reference that is no array).\<close>

definition refs_of :: "obj list \<Rightarrow> ref \<Rightarrow> ref list" where
  "refs_of h a = (case array_at h a of Some rs \<Rightarrow> rs | None \<Rightarrow> [])"

definition computeStationTraffic_ref :: "store \<Rightarrow> ref \<Rightarrow> int \<Rightarrow> (ref \<times> store) option" where
  "computeStationTraffic_ref s stations timeFilter =
     (case filterByMinute_ref s (departuresByMinute_ref s) timeFilter of
        None \<Rightarrow> None
      | Some (deps, s1) \<Rightarrow>
          (case filterByMinute_ref s1 (arrivalsByMinute_ref s1) timeFilter of
             None \<Rightarrow> None
           | Some (arrs, s2) \<Rightarrow>
               array_map s2 stations
                 (traffic_record
                    (rollup (refs_of (heap s1) deps) length
                       (\<lambda>d. map_option start_station_id (trip_at (heap s1) d)))
                    (rollup (refs_of (heap s2) arrs) length
                       (\<lambda>d. map_option end_station_id (trip_at (heap s2) d))))))"

text \<open>Reading a store: the trips, tables, stations and traffic records that an array
  holds, and whether it is a table of trips or a list of stations.\<close>

definition trips_of :: "obj list \<Rightarrow> ref \<Rightarrow> trip list" where
  "trips_of h a = map (\<lambda>r. the (trip_at h r)) (refs_of h a)"

definition table_of :: "obj list \<Rightarrow> ref \<Rightarrow> trip list list" where
  "table_of h a = map (trips_of h) (refs_of h a)"

definition stations_of :: "obj list \<Rightarrow> ref \<Rightarrow> station list" where
  "stations_of h a = map (\<lambda>r. the (station_at h r)) (refs_of h a)"

definition traffic_of :: "obj list \<Rightarrow> ref \<Rightarrow> station_traffic list" where
  "traffic_of h a = map (\<lambda>r. the (traffic_at h r)) (refs_of h a)"

definition is_trip_array :: "obj list \<Rightarrow> ref \<Rightarrow> bool" where
  "is_trip_array h a =
     (case array_at h a of Some rs \<Rightarrow> list_all (\<lambda>r. trip_at h r \<noteq> None) rs | None \<Rightarrow> False)"

definition is_table :: "obj list \<Rightarrow> ref \<Rightarrow> bool" where
  "is_table h a =
     (case array_at h a of Some bs \<Rightarrow> list_all (is_trip_array h) bs | None \<Rightarrow> False)"

definition is_station_array :: "obj list \<Rightarrow> ref \<Rightarrow> bool" where
  "is_station_array h a =
     (case array_at h a of Some rs \<Rightarrow> list_all (\<lambda>r. station_at h r \<noteq> None) rs | None \<Rightarrow> False)"

text \<open>Nothing that was in the store before is changed: the old heap is an initial segment
  of the new one, and the two global variables still hold the same references.\<close>

definition unchanged :: "store \<Rightarrow> store \<Rightarrow> bool" where
  "unchanged s s' \<longleftrightarrow>
     prefix (heap s) (heap s') \<and>
     departuresByMinute_ref s' = departuresByMinute_ref s \<and>
     arrivalsByMinute_ref s' = arrivalsByMinute_ref s"

text \<open>What a primitive that allocates one object does to the store.\<close>

definition allocates :: "store \<Rightarrow> ref \<Rightarrow> store \<Rightarrow> bool" where
  "allocates s r s' \<longleftrightarrow> unchanged s s' \<and> length (heap s) \<le> r \<and> r < length (heap s')"

text \<open>The tables and the station list that a store holds.\<close>

definition buckets_of :: "store \<Rightarrow> buckets" where
  "buckets_of s = \<lparr>departuresByMinute = table_of (heap s) (departuresByMinute_ref s),
                   arrivalsByMinute = table_of (heap s) (arrivalsByMinute_ref s)\<rparr>"

definition well_formed :: "store \<Rightarrow> ref \<Rightarrow> bool" where
  "well_formed s stations \<longleftrightarrow>
     is_table (heap s) (departuresByMinute_ref s) \<and>
     is_table (heap s) (arrivalsByMinute_ref s) \<and>
     is_station_array (heap s) stations"

text \<open>A small store: one trip, a departure table and an arrival table of two buckets
  each, three stations and the station list at reference 8; and the store after one and
  after two calls of the aggregator.\<close>

definition small_store :: store where
  "small_store =
     \<lparr>heap = [Trip trip_AB, Array [], Array [0], Array [1, 2], Array [2, 1],
              Station station_A, Station station_B, Station station_C, Array [5, 6, 7]],
      departuresByMinute_ref = 3, arrivalsByMinute_ref = 4\<rparr>"

definition small_store_1 :: store where
  "small_store_1 = small_store\<lparr>heap := heap small_store @
     [Array [0], Array [0],
      Traffic \<lparr>short_name = ''A'', lon = 0, lat = 0, departures = 1, arrivals = 0, totalTraffic = 1\<rparr>,
      Traffic \<lparr>short_name = ''B'', lon = 1, lat = 0, departures = 0, arrivals = 1, totalTraffic = 1\<rparr>,
      Traffic \<lparr>short_name = ''C'', lon = 0, lat = 1, departures = 0, arrivals = 0, totalTraffic = 0\<rparr>,
      Array [11, 12, 13]]\<rparr>"

definition small_store_2 :: store where
  "small_store_2 = small_store_1\<lparr>heap := heap small_store_1 @
     [Array [0], Array [0],
      Traffic \<lparr>short_name = ''A'', lon = 0, lat = 0, departures = 1, arrivals = 0, totalTraffic = 1\<rparr>,
      Traffic \<lparr>short_name = ''B'', lon = 1, lat = 0, departures = 0, arrivals = 1, totalTraffic = 1\<rparr>,
      Traffic \<lparr>short_name = ''C'', lon = 0, lat = 1, departures = 0, arrivals = 0, totalTraffic = 0\<rparr>,
      Array [17, 18, 19]]\<rparr>"

section \<open>Slices as index ranges\<close>

lemma js_rem_nonneg: "0 \<le> a \<Longrightarrow> 0 < b \<Longrightarrow> js_rem a b = a mod b"
  by (cases "a = 0") (simp_all add: js_rem_def)

lemma take_drop_nths:
  assumes "j \<le> length xs"
  shows "take (j - i) (drop i xs) = map ((!) xs) [i..<j]"
proof -
  have "map ((!) xs) [i..<j] = drop i (take j (map ((!) xs) [0..<length xs]))"
    using assms by (simp add: drop_map take_map)
  then show ?thesis by (simp add: map_nth drop_take)
qed

lemma slice_range:
  "0 \<le> i \<Longrightarrow> i \<le> j \<Longrightarrow> j \<le> int (length xs) \<Longrightarrow>
   slice xs i j = map ((!) xs) [nat i..<nat j]"
proof -
  assume a: "0 \<le> i" "i \<le> j" "j \<le> int (length xs)"
  then have "slice xs i j = take (nat (j - i)) (drop (nat i) xs)"
    by (simp add: slice_def Let_def min_def)
  also have "nat (j - i) = nat j - nat i" using a by simp
  also have "take (nat j - nat i) (drop (nat i) xs) = map ((!) xs) [nat i..<nat j]"
    using a by (intro take_drop_nths) simp
  finally show ?thesis .
qed

lemma slice_from_range:
  "0 \<le> i \<Longrightarrow> i \<le> int (length xs) \<Longrightarrow> slice_from xs i = map ((!) xs) [nat i..<length xs]"
  using slice_range [of i "int (length xs)" xs] by (simp add: slice_from_def)

lemma concat_nths: "concat xs = concat (map ((!) xs) [0..<length xs])"
  by (simp add: map_nth)

lemma filterByMinute_window:
  assumes len: "length tripsByMinute = 1440"
    and c: "c = -1 \<or> 0 \<le> c \<and> c \<le> 1439"
  shows "filterByMinute tripsByMinute c = concat (map ((!) tripsByMinute) (window_spec c))"
proof (cases "c = -1")
  case True
  then show ?thesis
    using len concat_nths [of tripsByMinute] by (simp add: filterByMinute_def window_spec_def)
next
  case False
  with c have r: "0 \<le> c" "c \<le> 1439" by simp_all
  define lo where "lo = (c - 60 + 1440) mod 1440"
  define hi where "hi = (c + 60) mod 1440"
  have lo: "js_rem (c - 60 + 1440) 1440 = lo" and hi: "js_rem (c + 60) 1440 = hi"
    using r by (simp_all add: js_rem_nonneg lo_def hi_def)
  have b: "0 \<le> lo" "lo < 1440" "0 \<le> hi" "hi < 1440"
    by (simp_all add: lo_def hi_def)
  have f: "filterByMinute tripsByMinute c =
      (if lo > hi then concat (slice_from tripsByMinute lo @ slice tripsByMinute 0 hi)
       else concat (slice tripsByMinute lo hi))"
    unfolding filterByMinute_def Let_def lo hi using False by simp
  have w: "window_spec c =
      (if nat lo \<le> nat hi then [nat lo..<nat hi] else [nat lo..<1440] @ [0..<nat hi])"
    unfolding window_spec_def Let_def lo_def hi_def using False by simp
  show ?thesis
  proof (cases "lo > hi")
    case True
    have "slice_from tripsByMinute lo = map ((!) tripsByMinute) [nat lo..<1440]"
      using slice_from_range [of lo tripsByMinute] b len by simp
    moreover have "slice tripsByMinute 0 hi = map ((!) tripsByMinute) [0..<nat hi]"
      using slice_range [of 0 hi tripsByMinute] b len by simp
    ultimately show ?thesis
      using True b by (simp add: f w)
  next
    case False
    then have le: "lo \<le> hi" by simp
    have "slice tripsByMinute lo hi = map ((!) tripsByMinute) [nat lo..<nat hi]"
      using slice_range [of lo hi tripsByMinute] b len le by simp
    then show ?thesis
      using le b by (simp add: f w)
  qed
qed

lemma window_spec_bound: "c = -1 \<or> 0 \<le> c \<and> c \<le> 1439 \<Longrightarrow> \<forall>i\<in>set (window_spec c). i < 1440"
  by (auto simp: window_spec_def Let_def)

lemma concat_index_table: "\<forall>i\<in>set w. i < 1440 \<Longrightarrow> concat (map ((!) index_table) w) = w"
  by (induction w) (simp_all add: index_table_def)

lemma filterByMinute_index_table:
  "c = -1 \<or> 0 \<le> c \<and> c \<le> 1439 \<Longrightarrow> filterByMinute index_table c = window_spec c"
  using filterByMinute_window [of index_table c] window_spec_bound [of c]
  by (simp add: concat_index_table) (simp add: index_table_def)

lemma window_spec_0: "window_spec 0 = [1380..<1440] @ [0..<60]"
  by (simp add: window_spec_def)

lemma window_spec_1439: "window_spec 1439 = [1379..<1440] @ [0..<59]"
  by (simp add: window_spec_def)

lemma window_lo:
  fixes c :: int
  assumes "0 \<le> c" "c \<le> 1439"
  shows "(c - 60 + 1440) mod 1440 = (if c < 60 then c + 1380 else c - 60)"
proof (cases "c < 60")
  case True
  have "(c + 1380) mod 1440 = c + 1380"
    using assms True by (intro mod_pos_pos_trivial) simp_all
  moreover have "c - 60 + 1440 = c + 1380" by simp
  ultimately show ?thesis using True by (simp only: if_True)
next
  case False
  have "(c - 60 + 1440) mod 1440 = (c - 60) mod 1440"
    by (simp only: mod_add_self2)
  also have "\<dots> = c - 60"
    using assms False by (intro mod_pos_pos_trivial) simp_all
  finally show ?thesis using False by (simp only: if_False)
qed

lemma window_hi:
  fixes c :: int
  assumes "0 \<le> c" "c \<le> 1439"
  shows "(c + 60) mod 1440 = (if c < 1380 then c + 60 else c - 1380)"
proof (cases "c < 1380")
  case True
  have "(c + 60) mod 1440 = c + 60"
    using assms True by (intro mod_pos_pos_trivial) simp_all
  then show ?thesis using True by (simp only: if_True)
next
  case False
  have "c + 60 = c - 1380 + 1440" by simp
  then have "(c + 60) mod 1440 = (c - 1380) mod 1440"
    by (simp only: mod_add_self2)
  also have "\<dots> = c - 1380"
    using assms False by (intro mod_pos_pos_trivial) simp_all
  finally show ?thesis using False by (simp only: if_False)
qed

lemma window_spec_cases:
  assumes "0 \<le> c" "c \<le> 1439"
  shows "window_spec c =
    (if c < 60 then [nat (c + 1380)..<1440] @ [0..<nat (c + 60)]
     else if c < 1380 then [nat (c - 60)..<nat (c + 60)]
     else [nat (c - 60)..<1440] @ [0..<nat (c - 1380)])"
  unfolding window_spec_def Let_def window_lo [OF assms] window_hi [OF assms]
  using assms by simp

lemma window_spec_length: "0 \<le> c \<Longrightarrow> c \<le> 1439 \<Longrightarrow> length (window_spec c) = 120"
  by (simp add: window_spec_cases nat_diff_distrib nat_add_distrib)

lemma window_spec_distinct: "0 \<le> c \<Longrightarrow> c \<le> 1439 \<Longrightarrow> distinct (window_spec c)"
  by (auto simp: window_spec_cases)

lemma length_index_table: "length index_table = 1440"
  by (simp add: index_table_def)

lemma length_empty_table: "length empty_table = 1440"
  by (simp add: empty_table_def)

lemma filterByMinute_via_indices:
  assumes "length tripsByMinute = 1440" and "c = -1 \<or> 0 \<le> c \<and> c \<le> 1439"
  shows "filterByMinute tripsByMinute c =
    concat (map ((!) tripsByMinute) (filterByMinute index_table c))"
  using assms by (simp add: filterByMinute_window filterByMinute_index_table)

lemma window_0_set: "set ([1380..<1440] @ [0..<60]) = {1380..1439} \<union> {0..59::nat}"
proof -
  have "{1380..1439} = {1380..<Suc 1439}" "{0..59} = {0..<Suc (59::nat)}"
    by (simp_all only: atLeastLessThanSuc_atLeastAtMost)
  then show ?thesis by (simp del: upt_rec_numeral)
qed

lemma window_1439_set: "set ([1379..<1440] @ [0..<59]) = {1379..1439} \<union> {0..58::nat}"
proof -
  have "{1379..1439} = {1379..<Suc 1439}" "{0..58} = {0..<Suc (58::nat)}"
    by (simp_all only: atLeastLessThanSuc_atLeastAtMost)
  then show ?thesis by (simp del: upt_rec_numeral)
qed

section \<open>The bucketing pass pushes every trip to the slot of its minute\<close>

lemma minutesSinceMidnight_Date:
  "minutesSinceMidnight (Date t) = Num ((t div 3600000) mod 24 * 60 + (t div 60000) mod 60)"
  by (simp add: minutesSinceMidnight_def)

lemma minutesSinceMidnight_Invalid: "minutesSinceMidnight Invalid_Date = NaN"
  by (simp add: minutesSinceMidnight_def)

lemma minute_bound:
  fixes h m :: int
  assumes "0 \<le> h" "h < 24" "0 \<le> m" "m < 60"
  shows "0 \<le> h * 60 + m \<and> h * 60 + m < 1440"
  using assms by auto

lemma valid_minute_iff: "valid_minute (minutesSinceMidnight d) \<longleftrightarrow> d \<noteq> Invalid_Date"
proof (cases d)
  case (Date t)
  have "0 \<le> (t div 3600000) mod 24 * 60 + (t div 60000) mod 60 \<and>
        (t div 3600000) mod 24 * 60 + (t div 60000) mod 60 < 1440"
    by (intro minute_bound) simp_all
  then show ?thesis using Date by (simp add: minutesSinceMidnight_Date)
next
  case Invalid_Date
  then show ?thesis by (simp add: minutesSinceMidnight_Invalid)
qed

lemma length_pushed: "length (pushed minute table xs) = length table"
  by (simp add: pushed_def)

lemma pushed_Nil: "pushed minute table [] = table"
  by (simp add: pushed_def map_nth)

lemma pushed_Cons:
  assumes "0 \<le> i" "i < int (length table)" "minute x = Num i"
  shows "pushed minute (table[nat i := table ! nat i @ [x]]) xs = pushed minute table (x # xs)"
  using assms by (auto simp: pushed_def nth_list_update intro!: nth_equalityI)

lemma push_at_valid:
  assumes "valid_minute (minute x)" "length table = 1440"
  shows "\<exists>i. minute x = Num i \<and> 0 \<le> i \<and> i < 1440 \<and>
     push_at table (minute x) x = Inr (table[nat i := table ! nat i @ [x]])"
  using assms by (cases "minute x") simp_all

lemma push_at_pushed:
  assumes "valid_minute (minute x)" "length table = 1440"
  shows "\<exists>table'. push_at table (minute x) x = Inr table' \<and> length table' = 1440 \<and>
     (\<forall>xs. pushed minute table' xs = pushed minute table (x # xs))"
proof -
  from push_at_valid [of minute x table] assms obtain i where i: "minute x = Num i" "0 \<le> i" "i < 1440"
    "push_at table (minute x) x = Inr (table[nat i := table ! nat i @ [x]])" by blast
  then show ?thesis using assms(2) pushed_Cons [of i table minute x] by simp
qed

lemma trips_forEach_pushed:
  assumes "\<forall>t\<in>set trips. valid_minute (start_minute t) \<and> valid_minute (end_minute t)"
    and "length (departuresByMinute globals) = 1440" "length (arrivalsByMinute globals) = 1440"
  shows "trips_forEach globals trips =
     Inr (globals\<lparr>departuresByMinute := pushed start_minute (departuresByMinute globals) trips,
                  arrivalsByMinute := pushed end_minute (arrivalsByMinute globals) trips\<rparr>)"
  using assms
proof (induction trips arbitrary: globals)
  case Nil
  then show ?case by (simp add: trips_forEach_def pushed_Nil)
next
  case (Cons t trips)
  from Cons.prems have v: "valid_minute (start_minute t)" "valid_minute (end_minute t)" by simp_all
  from push_at_pushed [of start_minute t "departuresByMinute globals"] v(1) Cons.prems(2)
  obtain deps where
    d: "push_at (departuresByMinute globals) (start_minute t) t = Inr deps" "length deps = 1440"
       "\<And>xs. pushed start_minute deps xs = pushed start_minute (departuresByMinute globals) (t # xs)"
    by blast
  from push_at_pushed [of end_minute t "arrivalsByMinute globals"] v(2) Cons.prems(3)
  obtain arrs where
    a: "push_at (arrivalsByMinute globals) (end_minute t) t = Inr arrs" "length arrs = 1440"
       "\<And>xs. pushed end_minute arrs xs = pushed end_minute (arrivalsByMinute globals) (t # xs)"
    by blast
  let ?g = "globals\<lparr>departuresByMinute := deps, arrivalsByMinute := arrs\<rparr>"
  have step: "bucket_trip globals t = Inr ?g"
    using d(1) a(1) by (simp add: bucket_trip_def start_minute_def end_minute_def)
  have "trips_forEach globals (t # trips) = trips_forEach ?g trips"
    by (simp add: trips_forEach_def step)
  also have "\<dots> = Inr (?g\<lparr>departuresByMinute := pushed start_minute (departuresByMinute ?g) trips,
                  arrivalsByMinute := pushed end_minute (arrivalsByMinute ?g) trips\<rparr>)"
    using Cons.prems(1) d(2) a(2) by (intro Cons.IH) simp_all
  finally show ?case by (simp add: d(3) a(3))
qed

lemma nth_empty_table: "i < 1440 \<Longrightarrow> empty_table ! i = []"
  by (simp add: empty_table_def)

lemma concat_empty_table: "concat empty_table = []"
  by (simp add: empty_table_def)

lemma nth_pushed:
  "i < length table \<Longrightarrow>
   pushed minute table xs ! i = table ! i @ filter (\<lambda>x. minute x = Num (int i)) xs"
  by (simp add: pushed_def)

lemma mset_concat_push:
  assumes "i < length table"
  shows "mset (concat (table[i := table ! i @ [x]])) = add_mset x (mset (concat table))"
proof -
  have "table = take i table @ table ! i # drop (Suc i) table"
    using assms by (rule id_take_nth_drop)
  then have "mset (concat table) =
      mset (concat (take i table)) + mset (table ! i) + mset (concat (drop (Suc i) table))"
    by (metis concat.simps(2) concat_append mset_append add.assoc)
  moreover have "table[i := table ! i @ [x]] =
      take i table @ (table ! i @ [x]) # drop (Suc i) table"
    using assms by (rule upd_conv_take_nth_drop)
  ultimately show ?thesis by simp
qed

lemma mset_concat_pushed:
  assumes "\<forall>x\<in>set xs. valid_minute (minute x)" "length table = 1440"
  shows "mset (concat (pushed minute table xs)) = mset (concat table) + mset xs"
  using assms
proof (induction xs arbitrary: table)
  case Nil
  then show ?case by (simp add: pushed_Nil)
next
  case (Cons x xs)
  from push_at_valid [of minute x table] Cons.prems
  obtain i where i: "minute x = Num i" "0 \<le> i" "i < 1440" by auto
  let ?t = "table[nat i := table ! nat i @ [x]]"
  have "pushed minute table (x # xs) = pushed minute ?t xs"
    using i Cons.prems(2) by (simp add: pushed_Cons)
  moreover have "mset (concat (pushed minute ?t xs)) = mset (concat ?t) + mset xs"
    using Cons.prems by (intro Cons.IH) simp_all
  moreover have "mset (concat ?t) = add_mset x (mset (concat table))"
    using i Cons.prems(2) by (intro mset_concat_push) simp
  ultimately show ?case by simp
qed

lemma distinct_concat_map:
  assumes "distinct w" "\<forall>i\<in>set w. distinct (f i)"
    "\<forall>i\<in>set w. \<forall>j\<in>set w. i \<noteq> j \<longrightarrow> set (f i) \<inter> set (f j) = {}"
  shows "distinct (concat (map f w))"
  using assms by (induction w) auto

lemma trips_forEach_initial:
  assumes "\<forall>t\<in>set trips. valid_minute (start_minute t) \<and> valid_minute (end_minute t)"
  shows "trips_forEach initial_buckets trips =
     Inr \<lparr>departuresByMinute = pushed start_minute empty_table trips,
          arrivalsByMinute = pushed end_minute empty_table trips\<rparr>"
  using trips_forEach_pushed [OF assms, of initial_buckets]
  by (simp add: initial_buckets_def length_empty_table)

lemma pushed_empty_nth:
  "i < 1440 \<Longrightarrow> pushed minute empty_table xs ! i = filter (\<lambda>x. minute x = Num (int i)) xs"
  by (simp add: nth_pushed length_empty_table nth_empty_table)

lemma count_list_filter:
  "count_list (filter P xs) x = (if P x then count_list xs x else 0)"
  by (induction xs) auto

lemma distinct_count_list: "distinct xs \<Longrightarrow> x \<in> set xs \<Longrightarrow> count_list xs x = 1"
  by (induction xs) auto

lemma count_list_mset: "count_list xs x = count (mset xs) x"
  by (induction xs) auto

lemma window_spec_distinct_all:
  "c = -1 \<or> 0 \<le> c \<and> c \<le> 1439 \<Longrightarrow> distinct (window_spec c)"
  by (cases "c = -1") (simp_all add: window_spec_distinct, simp add: window_spec_def)

lemma distinct_filterByMinute_pushed:
  assumes "distinct xs" "c = -1 \<or> 0 \<le> c \<and> c \<le> 1439"
  shows "distinct (filterByMinute (pushed minute empty_table xs) c)"
proof -
  let ?f = "\<lambda>i. filter (\<lambda>x. minute x = Num (int i)) xs"
  have b: "\<forall>i\<in>set (window_spec c). i < 1440"
    using assms(2) by (rule window_spec_bound)
  have "filterByMinute (pushed minute empty_table xs) c =
      concat (map ((!) (pushed minute empty_table xs)) (window_spec c))"
    using assms(2) by (intro filterByMinute_window) (simp add: length_pushed length_empty_table)
  also have "map ((!) (pushed minute empty_table xs)) (window_spec c) = map ?f (window_spec c)"
    using b by (intro map_cong) (simp_all add: pushed_empty_nth)
  finally have "filterByMinute (pushed minute empty_table xs) c = concat (map ?f (window_spec c))" .
  moreover have "distinct (concat (map ?f (window_spec c)))"
    using assms by (intro distinct_concat_map window_spec_distinct_all) auto
  ultimately show ?thesis by simp
qed

lemma start_minute_AB: "start_minute trip_AB = Num 700"
  by (simp add: start_minute_def trip_AB_def minutesSinceMidnight_Date)

lemma end_minute_AB: "end_minute trip_AB = Num 705"
  by (simp add: end_minute_def trip_AB_def minutesSinceMidnight_Date)

lemma start_minute_bad: "start_minute trip_bad = Num 10"
  by (simp add: start_minute_def trip_bad_def minutesSinceMidnight_Date)

lemma end_minute_bad: "end_minute trip_bad = NaN"
  by (simp add: end_minute_def trip_bad_def minutesSinceMidnight_Invalid)

lemma bucket_trip_AB:
  "length (departuresByMinute g) = 1440 \<Longrightarrow> length (arrivalsByMinute g) = 1440 \<Longrightarrow>
   bucket_trip g trip_AB =
     Inr (g\<lparr>departuresByMinute := (departuresByMinute g)[700 := departuresByMinute g ! 700 @ [trip_AB]],
            arrivalsByMinute := (arrivalsByMinute g)[705 := arrivalsByMinute g ! 705 @ [trip_AB]]\<rparr>)"
  using start_minute_AB end_minute_AB
  by (simp add: bucket_trip_def start_minute_def end_minute_def)

lemma bucket_trip_bad:
  "length (departuresByMinute g) = 1440 \<Longrightarrow>
   bucket_trip g trip_bad =
     Inl (TypeError,
          g\<lparr>departuresByMinute := (departuresByMinute g)[10 := departuresByMinute g ! 10 @ [trip_bad]]\<rparr>)"
  using start_minute_bad end_minute_bad
  by (simp add: bucket_trip_def start_minute_def end_minute_def)

lemma trips_forEach_AB: "trips_forEach initial_buckets [trip_AB] = Inr buckets_AB"
  by (simp add: trips_forEach_def bucket_trip_AB initial_buckets_def buckets_AB_def
      length_empty_table nth_empty_table)

lemma trips_forEach_bad_AB:
  "trips_forEach initial_buckets [trip_bad, trip_AB] =
     Inl (TypeError, \<lparr>departuresByMinute = empty_table[10 := [trip_bad]],
                      arrivalsByMinute = empty_table\<rparr>)"
  by (simp add: trips_forEach_def bucket_trip_bad initial_buckets_def
      length_empty_table nth_empty_table)

lemma forEach_append:
  "forEach f s (xs @ ys) = (case forEach f s xs of Inl e \<Rightarrow> Inl e | Inr s' \<Rightarrow> forEach f s' ys)"
  by (induction xs arbitrary: s) (simp_all split: sum.splits)

lemma push_at_invalid:
  "\<not> valid_minute m \<Longrightarrow> length table = 1440 \<Longrightarrow> push_at table m x = Inl TypeError"
  by (cases m) auto

lemma bucket_trip_invalid:
  assumes "\<not> (valid_minute (start_minute t) \<and> valid_minute (end_minute t))"
    and "length (departuresByMinute g) = 1440" "length (arrivalsByMinute g) = 1440"
  shows "bucket_trip g t =
     Inl (TypeError,
          if valid_minute (start_minute t)
          then g\<lparr>departuresByMinute := pushed start_minute (departuresByMinute g) [t]\<rparr>
          else g)"
proof (cases "valid_minute (start_minute t)")
  case False
  then show ?thesis
    using assms(2) by (simp add: bucket_trip_def push_at_invalid flip: start_minute_def)
next
  case True
  with assms(1) have e: "\<not> valid_minute (end_minute t)" by simp
  from push_at_pushed [of start_minute t "departuresByMinute g"] True assms(2)
  obtain deps where d: "push_at (departuresByMinute g) (start_minute t) t = Inr deps"
    "pushed start_minute deps [] = pushed start_minute (departuresByMinute g) [t]"
    by blast
  then show ?thesis
    using True e assms(3)
    by (simp add: bucket_trip_def push_at_invalid pushed_Nil flip: start_minute_def end_minute_def)
qed

section \<open>What the aggregator counts\<close>

lemma group_lookup:
  "group keyof vs groups k =
     (case groups k of
        None \<Rightarrow> (if filter (\<lambda>v. keyof v = k) vs = [] then None
                  else Some (filter (\<lambda>v. keyof v = k) vs))
      | Some g \<Rightarrow> Some (g @ filter (\<lambda>v. keyof v = k) vs))"
  by (induction vs arbitrary: groups) (auto split: option.splits)

lemma rollup_length:
  "(case rollup vs length keyof k of Some n \<Rightarrow> n | None \<Rightarrow> 0) =
     length (filter (\<lambda>v. keyof v = k) vs)"
  by (simp add: rollup_def group_lookup)

lemma computeStationTraffic_counts:
  "computeStationTraffic globals stations timeFilter =
     map (\<lambda>station. station.extend station
            (station_traffic.fields (dep_count globals timeFilter station)
               (arr_count globals timeFilter station)
               (dep_count globals timeFilter station + arr_count globals timeFilter station)))
       stations"
  unfolding computeStationTraffic_def Let_def rollup_length dep_count_def arr_count_def ..

lemma computeStationTraffic_nth:
  assumes "i < length stations"
  shows "departures (computeStationTraffic globals stations timeFilter ! i) =
           dep_count globals timeFilter (stations ! i)"
    and "arrivals (computeStationTraffic globals stations timeFilter ! i) =
           arr_count globals timeFilter (stations ! i)"
    and "totalTraffic (computeStationTraffic globals stations timeFilter ! i) =
           dep_count globals timeFilter (stations ! i) + arr_count globals timeFilter (stations ! i)"
    and "station.truncate (computeStationTraffic globals stations timeFilter ! i) = stations ! i"
  using assms
  by (simp_all add: computeStationTraffic_counts station.extend_def station_traffic.fields_def
      station.truncate_def)

lemma station_eta: "\<lparr>short_name = short_name x, lon = lon x, lat = lat x\<rparr> = (x::station)"
  by (cases x) simp

lemma truncate_computeStationTraffic:
  "map station.truncate (computeStationTraffic globals stations timeFilter) = stations"
  by (simp add: computeStationTraffic_counts station.extend_def station_traffic.fields_def
      station.truncate_def comp_def station_eta)

lemma length_filter_concat:
  "length (filter P (concat xss)) = sum_list (map (\<lambda>xs. length (filter P xs)) xss)"
  by (induction xss) simp_all

lemma sum_list_take_le: "sum_list (map f (take n xs)) \<le> sum_list (map (f :: 'a \<Rightarrow> nat) xs)"
proof -
  have "sum_list (map f xs) = sum_list (map f (take n xs)) + sum_list (map f (drop n xs))"
    by (metis append_take_drop_id map_append sum_list_append)
  then show ?thesis by simp
qed

lemma sum_list_drop_le: "sum_list (map f (drop n xs)) \<le> sum_list (map (f :: 'a \<Rightarrow> nat) xs)"
proof -
  have "sum_list (map f xs) = sum_list (map f (take n xs)) + sum_list (map f (drop n xs))"
    by (metis append_take_drop_id map_append sum_list_append)
  then show ?thesis by simp
qed

lemma sum_list_slice_le: "sum_list (map f (slice xs i j)) \<le> sum_list (map (f :: 'a \<Rightarrow> nat) xs)"
  unfolding slice_def Let_def
  by (rule order_trans [OF sum_list_take_le sum_list_drop_le])

lemma slice_from_nonneg: "0 \<le> i \<Longrightarrow> slice_from xs i = drop (nat i) xs"
  by (auto simp: slice_from_def slice_def Let_def min_def)

lemma slice_0_nonneg: "0 \<le> j \<Longrightarrow> slice xs 0 j = take (nat j) xs"
  by (auto simp: slice_def Let_def min_def)

lemma sum_list_wrap_le:
  assumes "a \<le> b"
  shows "sum_list (map f (drop b xs @ take a xs)) \<le> sum_list (map (f :: 'a \<Rightarrow> nat) xs)"
proof -
  have "drop b xs = drop (b - a) (drop a xs)" using assms by simp
  then have "sum_list (map f (drop b xs)) \<le> sum_list (map f (drop a xs))"
    by (metis sum_list_drop_le)
  moreover have "sum_list (map f xs) = sum_list (map f (take a xs)) + sum_list (map f (drop a xs))"
    by (metis append_take_drop_id map_append sum_list_append)
  ultimately show ?thesis by simp
qed

lemma filterByMinute_count_le:
  assumes "0 \<le> c" "c \<le> 1439"
  shows "length (filter P (filterByMinute tripsByMinute c)) \<le>
         length (filter P (filterByMinute tripsByMinute (-1)))"
proof -
  define lo where "lo = (c - 60 + 1440) mod 1440"
  define hi where "hi = (c + 60) mod 1440"
  have lo: "js_rem (c - 60 + 1440) 1440 = lo" and hi: "js_rem (c + 60) 1440 = hi"
    using assms by (simp_all add: js_rem_nonneg lo_def hi_def)
  have b: "0 \<le> lo" "0 \<le> hi"
    by (simp_all add: lo_def hi_def)
  have "c \<noteq> -1" using assms by simp
  then have f: "filterByMinute tripsByMinute c =
      (if lo > hi then concat (slice_from tripsByMinute lo @ slice tripsByMinute 0 hi)
       else concat (slice tripsByMinute lo hi))"
    unfolding filterByMinute_def Let_def lo hi by simp
  have all: "filterByMinute tripsByMinute (-1) = concat tripsByMinute"
    by (simp add: filterByMinute_def)
  show ?thesis
  proof (cases "lo > hi")
    case True
    then have "nat hi \<le> nat lo" by simp
    then show ?thesis
      using True b sum_list_wrap_le [of "nat hi" "nat lo" "\<lambda>xs. length (filter P xs)" tripsByMinute]
      by (simp add: f all length_filter_concat slice_from_nonneg slice_0_nonneg)
  next
    case False
    then show ?thesis
      using sum_list_slice_le [of "\<lambda>xs. length (filter P xs)" tripsByMinute lo hi]
      by (simp add: f all length_filter_concat)
  qed
qed

lemma count_one_station:
  assumes "distinct (map f ss)" "k \<in> f ` set ss"
  shows "sum_list (map (\<lambda>s. if k = f s then 1 else 0) ss) = (1::nat)"
  using assms by (induction ss) (auto simp: image_iff)

lemma sum_counts:
  assumes "distinct (map f ss)" "\<forall>t\<in>set ts. g t \<in> f ` set ss"
  shows "sum_list (map (\<lambda>s. length (filter (\<lambda>t. g t = f s) ts)) ss) = length ts"
  using assms(2)
proof (induction ts)
  case Nil
  then show ?case by simp
next
  case (Cons t ts)
  have "sum_list (map (\<lambda>s. length (filter (\<lambda>t. g t = f s) (t # ts))) ss) =
      sum_list (map (\<lambda>s. (if g t = f s then 1 else 0) + length (filter (\<lambda>t. g t = f s) ts)) ss)"
    by (intro arg_cong [of _ _ sum_list] map_cong) simp_all
  also have "\<dots> = sum_list (map (\<lambda>s. if g t = f s then 1 else 0) ss) +
      sum_list (map (\<lambda>s. length (filter (\<lambda>t. g t = f s) ts)) ss)"
    by (simp add: sum_list_addf)
  also have "\<dots> = 1 + length ts"
    using Cons count_one_station [OF assms(1), of "g t"] by simp
  finally show ?case by simp
qed

lemma length_filter_mset:
  "mset xs = mset ys \<Longrightarrow> length (filter P xs) = length (filter P ys)"
  by (metis mset_filter size_mset)

section \<open>The small data set, evaluated\<close>

lemma concat_nths_single:
  assumes "distinct w" "\<forall>j\<in>set w. j < 1440" "i < 1440"
  shows "concat (map ((!) (empty_table[i := b])) w) = (if i \<in> set w then b else [])"
  using assms
  by (induction w) (auto simp: nth_list_update length_empty_table nth_empty_table)

lemma filterByMinute_single:
  assumes "i < 1440" "c = -1 \<or> 0 \<le> c \<and> c \<le> 1439"
  shows "filterByMinute (empty_table[i := b]) c = (if i \<in> set (window_spec c) then b else [])"
proof -
  have "filterByMinute (empty_table[i := b]) c =
      concat (map ((!) (empty_table[i := b])) (window_spec c))"
    using assms(2) by (intro filterByMinute_window) (simp add: length_empty_table)
  also have "\<dots> = (if i \<in> set (window_spec c) then b else [])"
    using assms window_spec_bound [of c]
    by (intro concat_nths_single window_spec_distinct_all) simp_all
  finally show ?thesis .
qed

lemma window_700: "set (window_spec 700) = {640..<760}"
  by (simp add: window_spec_cases del: upt_rec_numeral)

lemma window_0: "set (window_spec 0) = {1380..<1440} \<union> {0..<60}"
  by (simp only: window_spec_0 set_append set_upt)

lemma window_all: "set (window_spec (-1)) = {0..<1440}"
  by (simp add: window_spec_def del: upt_rec_numeral)

lemma deps_AB:
  "filterByMinute (departuresByMinute buckets_AB) 700 = [trip_AB]"
  "filterByMinute (departuresByMinute buckets_AB) 0 = []"
  "filterByMinute (departuresByMinute buckets_AB) (-1) = [trip_AB]"
  by (simp_all add: buckets_AB_def filterByMinute_single window_700 window_0 window_all)

lemma arrs_AB:
  "filterByMinute (arrivalsByMinute buckets_AB) 700 = [trip_AB]"
  "filterByMinute (arrivalsByMinute buckets_AB) 0 = []"
  "filterByMinute (arrivalsByMinute buckets_AB) (-1) = [trip_AB]"
  by (simp_all add: buckets_AB_def filterByMinute_single window_700 window_0 window_all)

lemmas AB_defs = station_A_def station_B_def station_C_def trip_AB_def

lemma traffic_AB_700:
  "computeStationTraffic buckets_AB [station_A, station_B, station_C] 700 =
     [\<lparr>short_name = ''A'', lon = 0, lat = 0, departures = 1, arrivals = 0, totalTraffic = 1\<rparr>,
      \<lparr>short_name = ''B'', lon = 1, lat = 0, departures = 0, arrivals = 1, totalTraffic = 1\<rparr>,
      \<lparr>short_name = ''C'', lon = 0, lat = 1, departures = 0, arrivals = 0, totalTraffic = 0\<rparr>]"
  by (simp add: computeStationTraffic_counts dep_count_def arr_count_def deps_AB arrs_AB
      station.extend_def station_traffic.fields_def) (simp add: AB_defs)

lemma traffic_AB_0:
  "computeStationTraffic buckets_AB [station_A, station_B, station_C] 0 =
     [\<lparr>short_name = ''A'', lon = 0, lat = 0, departures = 0, arrivals = 0, totalTraffic = 0\<rparr>,
      \<lparr>short_name = ''B'', lon = 1, lat = 0, departures = 0, arrivals = 0, totalTraffic = 0\<rparr>,
      \<lparr>short_name = ''C'', lon = 0, lat = 1, departures = 0, arrivals = 0, totalTraffic = 0\<rparr>]"
  by (simp add: computeStationTraffic_counts dep_count_def arr_count_def deps_AB arrs_AB
      station.extend_def station_traffic.fields_def) (simp add: AB_defs)

lemma traffic_AB_all:
  "computeStationTraffic buckets_AB [station_A, station_B, station_C] (-1) =
     [\<lparr>short_name = ''A'', lon = 0, lat = 0, departures = 1, arrivals = 0, totalTraffic = 1\<rparr>,
      \<lparr>short_name = ''B'', lon = 1, lat = 0, departures = 0, arrivals = 1, totalTraffic = 1\<rparr>,
      \<lparr>short_name = ''C'', lon = 0, lat = 1, departures = 0, arrivals = 0, totalTraffic = 0\<rparr>]"
  by (simp add: computeStationTraffic_counts dep_count_def arr_count_def deps_AB arrs_AB
      station.extend_def station_traffic.fields_def) (simp add: AB_defs)

lemma traffic_AAB_all:
  "computeStationTraffic buckets_AB [station_A, station_A, station_B] (-1) =
     [\<lparr>short_name = ''A'', lon = 0, lat = 0, departures = 1, arrivals = 0, totalTraffic = 1\<rparr>,
      \<lparr>short_name = ''A'', lon = 0, lat = 0, departures = 1, arrivals = 0, totalTraffic = 1\<rparr>,
      \<lparr>short_name = ''B'', lon = 1, lat = 0, departures = 0, arrivals = 1, totalTraffic = 1\<rparr>]"
  by (simp add: computeStationTraffic_counts dep_count_def arr_count_def deps_AB arrs_AB
      station.extend_def station_traffic.fields_def) (simp add: AB_defs)

section \<open>The window query: contract, boundaries, width\<close>

text \<open>
  Claim C1. On a table of 1440 buckets, \<open>filterByMinute\<close> with the sentinel \<open>-1\<close>
  returns the concatenation of all 1440 buckets in index order. For a centre minute
  \<open>c\<close> in \<open>[0, 1439]\<close>, with \<open>minMinute = (c - 60 + 1440) mod 1440\<close> and
  \<open>maxMinute = (c + 60) mod 1440\<close>, it returns the concatenation of the buckets
  \<open>[minMinute, maxMinute)\<close> when \<open>minMinute \<le> maxMinute\<close>, and the buckets
  \<open>[minMinute, 1440)\<close> followed by the buckets \<open>[0, maxMinute)\<close> otherwise.
\<close>

theorem filterByMinute_contract:
  assumes "length tripsByMinute = 1440"
  shows "filterByMinute tripsByMinute (-1) = concat (map ((!) tripsByMinute) [0..<1440]) \<and>
    (\<forall>c. 0 \<le> c \<and> c \<le> 1439 \<longrightarrow>
      (let minMinute = (c - 60 + 1440) mod 1440; maxMinute = (c + 60) mod 1440 in
        filterByMinute tripsByMinute c =
          (if minMinute \<le> maxMinute
           then concat (map ((!) tripsByMinute) [nat minMinute..<nat maxMinute])
           else concat (map ((!) tripsByMinute) [nat minMinute..<1440]) @
                concat (map ((!) tripsByMinute) [0..<nat maxMinute]))))"
proof (intro conjI allI impI)
  show "filterByMinute tripsByMinute (-1) = concat (map ((!) tripsByMinute) [0..<1440])"
    using filterByMinute_window [OF assms, of "-1"] by (simp add: window_spec_def)
next
  fix c :: int
  assume c: "0 \<le> c \<and> c \<le> 1439"
  then have "c \<noteq> -1" by simp
  then show "let minMinute = (c - 60 + 1440) mod 1440; maxMinute = (c + 60) mod 1440 in
        filterByMinute tripsByMinute c =
          (if minMinute \<le> maxMinute
           then concat (map ((!) tripsByMinute) [nat minMinute..<nat maxMinute])
           else concat (map ((!) tripsByMinute) [nat minMinute..<1440]) @
                concat (map ((!) tripsByMinute) [0..<nat maxMinute]))"
    using filterByMinute_window [OF assms, of c] c
    unfolding window_spec_def Let_def by (simp add: nat_le_eq_zle)
qed

theorem filterByMinute_contract_witness:
  "length index_table = 1440 \<and>
   filterByMinute index_table (-1) = concat (map ((!) index_table) [0..<1440]) \<and>
   filterByMinute index_table 700 = concat (map ((!) index_table) [640..<760]) \<and>
   filterByMinute index_table 1430 =
     concat (map ((!) index_table) [1370..<1440]) @ concat (map ((!) index_table) [0..<50])"
proof -
  note h = filterByMinute_contract [OF length_index_table]
  have a: "filterByMinute index_table 700 = concat (map ((!) index_table) [640..<760])"
    using h [THEN conjunct2, THEN spec, of 700] by (simp add: Let_def del: upt_rec_numeral)
  have b: "filterByMinute index_table 1430 =
     concat (map ((!) index_table) [1370..<1440]) @ concat (map ((!) index_table) [0..<50])"
    using h [THEN conjunct2, THEN spec, of 1430] by (simp add: Let_def del: upt_rec_numeral)
  show ?thesis using h [THEN conjunct1] a b length_index_table by (intro conjI)
qed

text \<open>
  Claim C3, as amended. On a table of 1440 buckets, \<open>filterByMinute\<close> at centre 0
  concatenates the buckets 1380 through 1439 and then 0 through 59; at centre 1439 it
  concatenates the buckets 1379 through 1439 and then 0 through 58: \<open>minMinute\<close> is
  included, \<open>maxMinute\<close> (60, respectively 59) is excluded.
\<close>

theorem filterByMinute_boundary:
  assumes "length tripsByMinute = 1440"
  shows "filterByMinute tripsByMinute 0 =
           concat (map ((!) tripsByMinute) ([1380..<1440] @ [0..<60])) \<and>
         filterByMinute tripsByMinute 1439 =
           concat (map ((!) tripsByMinute) ([1379..<1440] @ [0..<59])) \<and>
         set (filterByMinute index_table 0) = {1380..1439} \<union> {0..59} \<and>
         set (filterByMinute index_table 1439) = {1379..1439} \<union> {0..58}"
proof -
  have c0: "(0::int) = -1 \<or> 0 \<le> (0::int) \<and> (0::int) \<le> 1439"
    and c1439: "(1439::int) = -1 \<or> 0 \<le> (1439::int) \<and> (1439::int) \<le> 1439"
    by simp_all
  note t0 = filterByMinute_window [OF assms c0, unfolded window_spec_0]
  note t1439 = filterByMinute_window [OF assms c1439, unfolded window_spec_1439]
  have "set (filterByMinute index_table 0) = set ([1380..<1440] @ [0..<60])"
    by (simp only: filterByMinute_index_table [OF c0] window_spec_0)
  then have i0: "set (filterByMinute index_table 0) = {1380..1439} \<union> {0..59}"
    by (simp only: window_0_set)
  have "set (filterByMinute index_table 1439) = set ([1379..<1440] @ [0..<59])"
    by (simp only: filterByMinute_index_table [OF c1439] window_spec_1439)
  then have i1439: "set (filterByMinute index_table 1439) = {1379..1439} \<union> {0..58}"
    by (simp only: window_1439_set)
  show ?thesis using t0 t1439 i0 i1439 by (intro conjI)
qed

theorem filterByMinute_boundary_witness:
  "length index_table = 1440 \<and>
   filterByMinute index_table 0 = concat (map ((!) index_table) ([1380..<1440] @ [0..<60])) \<and>
   filterByMinute index_table 1439 = concat (map ((!) index_table) ([1379..<1440] @ [0..<59]))"
  using filterByMinute_boundary [OF length_index_table] length_index_table by (intro conjI) blast+

text \<open>The claim as written has bucket 59 in the window of centre 1439; the query
  leaves it out.\<close>

theorem filterByMinute_boundary_counterexample:
  "59 \<notin> set (filterByMinute index_table 1439) \<and>
   \<not> {1379..1439} \<union> {0..59} \<subseteq> set (filterByMinute index_table 1439)"
proof -
  have "(1439::int) = -1 \<or> 0 \<le> (1439::int) \<and> (1439::int) \<le> 1439"
    by simp
  then have "set (filterByMinute index_table 1439) = set ([1379..<1440] @ [0..<59])"
    by (simp only: filterByMinute_index_table window_spec_1439)
  then have "59 \<notin> set (filterByMinute index_table 1439)"
    by (simp only: window_1439_set) simp
  then show ?thesis by auto
qed

text \<open>
  Claim C5. For every centre minute in \<open>[0, 1439]\<close> the query traverses exactly 120
  bucket indices, none twice, whether the window wraps at midnight or not; what it returns
  on any table of 1440 buckets is the concatenation of the buckets at these indices.
\<close>

theorem window_has_120_buckets:
  assumes "0 \<le> c" "c \<le> 1439"
  shows "card (set (filterByMinute index_table c)) = 120 \<and>
         length (filterByMinute index_table c) = 120 \<and>
         (\<forall>tripsByMinute :: 'a list list. length tripsByMinute = 1440 \<longrightarrow>
            filterByMinute tripsByMinute c =
              concat (map ((!) tripsByMinute) (filterByMinute index_table c)))"
proof -
  have w: "filterByMinute index_table c = window_spec c"
    using assms by (simp add: filterByMinute_index_table)
  have "card (set (window_spec c)) = length (window_spec c)"
    using assms by (intro distinct_card window_spec_distinct)
  then show ?thesis
    using assms by (simp add: w window_spec_length filterByMinute_window)
qed

theorem window_has_120_buckets_witness:
  "(0::int) \<le> 1430 \<and> (1430::int) \<le> 1439 \<and>
   card (set (filterByMinute index_table 1430)) = 120 \<and>
   length (filterByMinute index_table 1430) = 120 \<and>
   card (set (filterByMinute index_table 700)) = 120"
  using window_has_120_buckets [of 1430, where 'a = nat] window_has_120_buckets [of 700, where 'a = nat]
  by simp

section \<open>The bucketing pass: every trip once, and what an unparsable stamp does\<close>

text \<open>
  Claim C6. When every trip of the list has a valid minute of the day for both stamps, the
  bucketing pass, started on the empty tables, ends normally; slot \<open>i\<close> of the departure
  table then holds exactly the trips whose start minute is \<open>i\<close>, slot \<open>i\<close> of the
  arrival table those whose end minute is \<open>i\<close>, and each table holds the trips of the
  list and nothing else. Trips being distinct objects, every trip occurs exactly once in
  the departure table, in the slot of its start minute and in no other, and exactly once in
  the arrival table, in the slot of its end minute; so no window of the query (the whole
  day or a centre in \<open>[0, 1439]\<close>) returns a trip twice.
\<close>

theorem every_trip_bucketed_once:
  assumes "\<forall>t\<in>set trips. valid_minute (start_minute t) \<and> valid_minute (end_minute t)"
  shows "\<exists>globals. trips_forEach initial_buckets trips = Inr globals \<and>
    length (departuresByMinute globals) = 1440 \<and> length (arrivalsByMinute globals) = 1440 \<and>
    (\<forall>i<1440. departuresByMinute globals ! i = filter (\<lambda>t. start_minute t = Num (int i)) trips \<and>
              arrivalsByMinute globals ! i = filter (\<lambda>t. end_minute t = Num (int i)) trips) \<and>
    mset (concat (departuresByMinute globals)) = mset trips \<and>
    mset (concat (arrivalsByMinute globals)) = mset trips \<and>
    (distinct trips \<longrightarrow>
       (\<forall>t\<in>set trips.
          count_list (concat (departuresByMinute globals)) t = 1 \<and>
          count_list (concat (arrivalsByMinute globals)) t = 1 \<and>
          (\<forall>i<1440.
             count_list (departuresByMinute globals ! i) t =
               (if start_minute t = Num (int i) then 1 else 0) \<and>
             count_list (arrivalsByMinute globals ! i) t =
               (if end_minute t = Num (int i) then 1 else 0))) \<and>
       (\<forall>c. c = -1 \<or> 0 \<le> c \<and> c \<le> 1439 \<longrightarrow>
          distinct (filterByMinute (departuresByMinute globals) c) \<and>
          distinct (filterByMinute (arrivalsByMinute globals) c)))"
proof -
  let ?d = "pushed start_minute empty_table trips"
  let ?a = "pushed end_minute empty_table trips"
  let ?g = "\<lparr>departuresByMinute = ?d, arrivalsByMinute = ?a\<rparr>"
  have run: "trips_forEach initial_buckets trips = Inr ?g"
    using assms by (rule trips_forEach_initial)
  have len: "length ?d = 1440" "length ?a = 1440"
    by (simp_all add: length_pushed length_empty_table)
  have slots: "\<forall>i<1440. ?d ! i = filter (\<lambda>t. start_minute t = Num (int i)) trips \<and>
              ?a ! i = filter (\<lambda>t. end_minute t = Num (int i)) trips"
    by (simp add: pushed_empty_nth)
  have md: "mset (concat ?d) = mset trips"
    using mset_concat_pushed [of trips start_minute empty_table] assms
    by (simp add: length_empty_table concat_empty_table)
  have ma: "mset (concat ?a) = mset trips"
    using mset_concat_pushed [of trips end_minute empty_table] assms
    by (simp add: length_empty_table concat_empty_table)
  have once: "\<forall>t\<in>set trips.
          count_list (concat ?d) t = 1 \<and> count_list (concat ?a) t = 1 \<and>
          (\<forall>i<1440.
             count_list (?d ! i) t = (if start_minute t = Num (int i) then 1 else 0) \<and>
             count_list (?a ! i) t = (if end_minute t = Num (int i) then 1 else 0))"
    if "distinct trips"
    using that
    by (simp add: count_list_mset [of "concat _"] md ma pushed_empty_nth count_list_filter
        distinct_count_list flip: count_list_mset)
  have win: "\<forall>c. c = -1 \<or> 0 \<le> c \<and> c \<le> 1439 \<longrightarrow>
          distinct (filterByMinute ?d c) \<and> distinct (filterByMinute ?a c)"
    if "distinct trips"
    using that by (simp add: distinct_filterByMinute_pushed)
  show ?thesis
    using run len slots md ma once win by (intro exI [of _ ?g]) simp
qed

theorem every_trip_bucketed_once_witness:
  "valid_minute (start_minute trip_AB) \<and> valid_minute (end_minute trip_AB) \<and>
   trips_forEach initial_buckets [trip_AB] = Inr buckets_AB \<and>
   departuresByMinute buckets_AB ! 700 = [trip_AB] \<and>
   arrivalsByMinute buckets_AB ! 705 = [trip_AB] \<and>
   count_list (concat (departuresByMinute buckets_AB)) trip_AB = 1 \<and>
   count_list (concat (arrivalsByMinute buckets_AB)) trip_AB = 1 \<and>
   count_list (departuresByMinute buckets_AB ! 699) trip_AB = 0 \<and>
   distinct (filterByMinute (departuresByMinute buckets_AB) 700)"
proof -
  have v: "\<forall>t\<in>set [trip_AB]. valid_minute (start_minute t) \<and> valid_minute (end_minute t)"
    by (simp add: start_minute_AB end_minute_AB)
  from every_trip_bucketed_once [OF v] obtain g where
    g: "trips_forEach initial_buckets [trip_AB] = Inr g"
    and slots: "\<forall>i<1440. departuresByMinute g ! i = filter (\<lambda>t. start_minute t = Num (int i)) [trip_AB] \<and>
              arrivalsByMinute g ! i = filter (\<lambda>t. end_minute t = Num (int i)) [trip_AB]"
    and once: "distinct [trip_AB] \<longrightarrow>
       (\<forall>t\<in>set [trip_AB].
          count_list (concat (departuresByMinute g)) t = 1 \<and>
          count_list (concat (arrivalsByMinute g)) t = 1 \<and>
          (\<forall>i<1440.
             count_list (departuresByMinute g ! i) t =
               (if start_minute t = Num (int i) then 1 else 0) \<and>
             count_list (arrivalsByMinute g ! i) t =
               (if end_minute t = Num (int i) then 1 else 0))) \<and>
       (\<forall>c. c = -1 \<or> 0 \<le> c \<and> c \<le> 1439 \<longrightarrow>
          distinct (filterByMinute (departuresByMinute g) c) \<and>
          distinct (filterByMinute (arrivalsByMinute g) c))"
    by blast
  have eq: "g = buckets_AB" using g by (simp add: trips_forEach_AB)
  have s700: "departuresByMinute buckets_AB ! 700 = [trip_AB]"
    using slots [THEN spec, of 700] by (simp add: eq start_minute_AB)
  have s705: "arrivalsByMinute buckets_AB ! 705 = [trip_AB]"
    using slots [THEN spec, of 705] by (simp add: eq end_minute_AB)
  have c: "count_list (concat (departuresByMinute buckets_AB)) trip_AB = 1"
    "count_list (concat (arrivalsByMinute buckets_AB)) trip_AB = 1"
    using once by (simp_all add: eq)
  have z: "count_list (departuresByMinute buckets_AB ! 699) trip_AB = 0"
    using once [THEN mp, THEN conjunct1, THEN bspec, of trip_AB, THEN conjunct2, THEN conjunct2, THEN spec, of 699]
    by (simp add: eq start_minute_AB)
  have d: "distinct (filterByMinute (departuresByMinute buckets_AB) 700)"
    using once [THEN mp, THEN conjunct2, THEN spec, of 700] by (simp add: eq)
  show ?thesis
    using v s700 s705 c z d by (simp add: trips_forEach_AB)
qed

text \<open>
  Claim C7, as amended. When a trip of the list has a stamp with no valid minute of the
  day, the pass does not skip it: at the first such trip \<open>push\<close> throws a \<open>TypeError\<close>,
  which ends the loop. The trips before it are bucketed, the trips after it are not, the
  arrival table is as the trips before left it, and the departure table has the offending
  trip in the slot of its start minute exactly when its start stamp is valid.
\<close>

theorem invalid_trip_aborts_load:
  assumes "\<forall>t\<in>set pre. valid_minute (start_minute t) \<and> valid_minute (end_minute t)"
    and "\<not> (valid_minute (start_minute bad) \<and> valid_minute (end_minute bad))"
  shows "\<exists>g g'. trips_forEach initial_buckets pre = Inr g \<and>
    trips_forEach initial_buckets (pre @ bad # post) = Inl (TypeError, g') \<and>
    arrivalsByMinute g' = arrivalsByMinute g \<and>
    departuresByMinute g' =
      (if valid_minute (start_minute bad)
       then pushed start_minute (departuresByMinute g) [bad]
       else departuresByMinute g)"
proof -
  let ?g = "\<lparr>departuresByMinute = pushed start_minute empty_table pre,
          arrivalsByMinute = pushed end_minute empty_table pre\<rparr>"
  let ?g' = "if valid_minute (start_minute bad)
          then ?g\<lparr>departuresByMinute := pushed start_minute (departuresByMinute ?g) [bad]\<rparr>
          else ?g"
  have pre: "trips_forEach initial_buckets pre = Inr ?g"
    using assms(1) by (rule trips_forEach_initial)
  have "bucket_trip ?g bad = Inl (TypeError, ?g')"
    using assms(2) by (intro bucket_trip_invalid) (simp_all add: length_pushed length_empty_table)
  then have "trips_forEach initial_buckets (pre @ bad # post) = Inl (TypeError, ?g')"
    using pre by (simp add: trips_forEach_def forEach_append)
  then show ?thesis
    using pre by (intro exI [of _ ?g] exI [of _ ?g']) simp
qed

theorem invalid_trip_aborts_load_witness:
  "valid_minute (start_minute trip_AB) \<and> valid_minute (end_minute trip_AB) \<and>
   \<not> (valid_minute (start_minute trip_bad) \<and> valid_minute (end_minute trip_bad)) \<and>
   (\<exists>g'. trips_forEach initial_buckets ([trip_AB] @ trip_bad # [trip_AB]) = Inl (TypeError, g') \<and>
      arrivalsByMinute g' = arrivalsByMinute buckets_AB \<and>
      departuresByMinute g' = pushed start_minute (departuresByMinute buckets_AB) [trip_bad])"
proof -
  have v: "\<forall>t\<in>set [trip_AB]. valid_minute (start_minute t) \<and> valid_minute (end_minute t)"
    by (simp add: start_minute_AB end_minute_AB)
  have b: "\<not> (valid_minute (start_minute trip_bad) \<and> valid_minute (end_minute trip_bad))"
    by (simp add: end_minute_bad)
  have s: "valid_minute (start_minute trip_bad)"
    by (simp add: start_minute_bad)
  from invalid_trip_aborts_load [OF v b, of "[trip_AB]"] show ?thesis
    using v b s by (auto simp: trips_forEach_AB)
qed

text \<open>The claim as written has the pass skip the trip and go on: on the list of the
  trip with the unparsable end stamp followed by the trip from \<open>A\<close> to \<open>B\<close>, the pass
  throws, the second trip is never bucketed, and the first stays in departure slot 10.\<close>

theorem invalid_trip_not_skipped:
  "trips_forEach initial_buckets [trip_bad, trip_AB] =
     Inl (TypeError, \<lparr>departuresByMinute = empty_table[10 := [trip_bad]],
                      arrivalsByMinute = empty_table\<rparr>) \<and>
   trips_forEach initial_buckets [trip_AB] = Inr buckets_AB \<and>
   trips_forEach initial_buckets [trip_bad, trip_AB] \<noteq> Inr buckets_AB \<and>
   \<not> valid_minute (end_minute trip_bad)"
  by (simp add: trips_forEach_bad_AB trips_forEach_AB end_minute_bad)


section \<open>The aggregator: one record per station, sums, bounds\<close>

text \<open>
  Claim C4. For every station list, every time filter and every contents of the tables,
  \<open>computeStationTraffic\<close> returns one record per station, in the order of the list:
  the record at position \<open>i\<close> is the station at position \<open>i\<close> extended by its counts.
  Its \<open>departures\<close> and \<open>arrivals\<close> are the numbers of trips of the window that carry
  the station's name, \<open>totalTraffic\<close> is their sum, and a station with no matching trip
  is kept with all three counts 0.
\<close>

theorem one_record_per_station:
  "length (computeStationTraffic globals stations timeFilter) = length stations \<and>
   map station.truncate (computeStationTraffic globals stations timeFilter) = stations \<and>
   (\<forall>i<length stations.
      let r = computeStationTraffic globals stations timeFilter ! i; station = stations ! i in
        station.truncate r = station \<and>
        departures r =
          length (filter (\<lambda>t. start_station_id t = short_name station)
            (filterByMinute (departuresByMinute globals) timeFilter)) \<and>
        arrivals r =
          length (filter (\<lambda>t. end_station_id t = short_name station)
            (filterByMinute (arrivalsByMinute globals) timeFilter)) \<and>
        totalTraffic r = departures r + arrivals r \<and>
        ((\<forall>t\<in>set (filterByMinute (departuresByMinute globals) timeFilter).
             start_station_id t \<noteq> short_name station) \<and>
         (\<forall>t\<in>set (filterByMinute (arrivalsByMinute globals) timeFilter).
             end_station_id t \<noteq> short_name station) \<longrightarrow>
         departures r = 0 \<and> arrivals r = 0 \<and> totalTraffic r = 0))"
proof (intro conjI allI impI)
  show "length (computeStationTraffic globals stations timeFilter) = length stations"
    by (simp add: computeStationTraffic_counts)
  show "map station.truncate (computeStationTraffic globals stations timeFilter) = stations"
    by (rule truncate_computeStationTraffic)
next
  fix i assume i: "i < length stations"
  show "let r = computeStationTraffic globals stations timeFilter ! i; station = stations ! i in
        station.truncate r = station \<and>
        departures r =
          length (filter (\<lambda>t. start_station_id t = short_name station)
            (filterByMinute (departuresByMinute globals) timeFilter)) \<and>
        arrivals r =
          length (filter (\<lambda>t. end_station_id t = short_name station)
            (filterByMinute (arrivalsByMinute globals) timeFilter)) \<and>
        totalTraffic r = departures r + arrivals r \<and>
        ((\<forall>t\<in>set (filterByMinute (departuresByMinute globals) timeFilter).
             start_station_id t \<noteq> short_name station) \<and>
         (\<forall>t\<in>set (filterByMinute (arrivalsByMinute globals) timeFilter).
             end_station_id t \<noteq> short_name station) \<longrightarrow>
         departures r = 0 \<and> arrivals r = 0 \<and> totalTraffic r = 0)"
    unfolding Let_def computeStationTraffic_nth [OF i]
    by (auto simp: dep_count_def arr_count_def filter_empty_conv)
qed

theorem one_record_per_station_witness:
  "length (computeStationTraffic buckets_AB [station_A, station_B, station_C] 700) = 3 \<and>
   map station.truncate (computeStationTraffic buckets_AB [station_A, station_B, station_C] 700) =
     [station_A, station_B, station_C] \<and>
   departures (computeStationTraffic buckets_AB [station_A, station_B, station_C] 700 ! 2) = 0 \<and>
   arrivals (computeStationTraffic buckets_AB [station_A, station_B, station_C] 700 ! 2) = 0 \<and>
   totalTraffic (computeStationTraffic buckets_AB [station_A, station_B, station_C] 700 ! 2) = 0 \<and>
   computeStationTraffic buckets_AB [station_A, station_B, station_C] 700 ! 0 =
     \<lparr>short_name = ''A'', lon = 0, lat = 0, departures = 1, arrivals = 0, totalTraffic = 1\<rparr>"
proof -
  note h = one_record_per_station [of buckets_AB "[station_A, station_B, station_C]" 700]
  have none: "(\<forall>t\<in>set (filterByMinute (departuresByMinute buckets_AB) 700).
             start_station_id t \<noteq> short_name station_C) \<and>
         (\<forall>t\<in>set (filterByMinute (arrivalsByMinute buckets_AB) 700).
             end_station_id t \<noteq> short_name station_C)"
    by (simp add: deps_AB arrs_AB AB_defs)
  have "departures (computeStationTraffic buckets_AB [station_A, station_B, station_C] 700 ! 2) = 0 \<and>
   arrivals (computeStationTraffic buckets_AB [station_A, station_B, station_C] 700 ! 2) = 0 \<and>
   totalTraffic (computeStationTraffic buckets_AB [station_A, station_B, station_C] 700 ! 2) = 0"
    using h [THEN conjunct2, THEN conjunct2, THEN spec, of 2] none
    by (simp add: Let_def)
  then show ?thesis
    using h [THEN conjunct1] h [THEN conjunct2, THEN conjunct1]
    by (simp add: traffic_AB_700)
qed

text \<open>
  Claim C10. For every station list, every contents of the tables, every station of the
  list and every centre minute in \<open>[0, 1439]\<close>, the \<open>departures\<close>, \<open>arrivals\<close> and
  \<open>totalTraffic\<close> that \<open>computeStationTraffic\<close> gives the station for the window are at
  most those it gives for the whole day (time filter \<open>-1\<close>).
\<close>

theorem window_counts_le_day_counts:
  assumes "0 \<le> c" "c \<le> 1439" "i < length stations"
  shows "departures (computeStationTraffic globals stations c ! i) \<le>
           departures (computeStationTraffic globals stations (-1) ! i) \<and>
         arrivals (computeStationTraffic globals stations c ! i) \<le>
           arrivals (computeStationTraffic globals stations (-1) ! i) \<and>
         totalTraffic (computeStationTraffic globals stations c ! i) \<le>
           totalTraffic (computeStationTraffic globals stations (-1) ! i)"
proof -
  have "dep_count globals c (stations ! i) \<le> dep_count globals (-1) (stations ! i)"
    unfolding dep_count_def using assms(1,2) by (rule filterByMinute_count_le)
  moreover have "arr_count globals c (stations ! i) \<le> arr_count globals (-1) (stations ! i)"
    unfolding arr_count_def using assms(1,2) by (rule filterByMinute_count_le)
  ultimately show ?thesis
    by (simp add: computeStationTraffic_nth [OF assms(3)])
qed

theorem window_counts_le_day_counts_witness:
  "(0::int) \<le> 0 \<and> (0::int) \<le> 1439 \<and> 0 < length [station_A, station_B, station_C] \<and>
   departures (computeStationTraffic buckets_AB [station_A, station_B, station_C] 0 ! 0) \<le>
     departures (computeStationTraffic buckets_AB [station_A, station_B, station_C] (-1) ! 0) \<and>
   arrivals (computeStationTraffic buckets_AB [station_A, station_B, station_C] 0 ! 0) \<le>
     arrivals (computeStationTraffic buckets_AB [station_A, station_B, station_C] (-1) ! 0) \<and>
   totalTraffic (computeStationTraffic buckets_AB [station_A, station_B, station_C] 0 ! 0) \<le>
     totalTraffic (computeStationTraffic buckets_AB [station_A, station_B, station_C] (-1) ! 0) \<and>
   departures (computeStationTraffic buckets_AB [station_A, station_B, station_C] 0 ! 0) = 0 \<and>
   departures (computeStationTraffic buckets_AB [station_A, station_B, station_C] (-1) ! 0) = 1"
proof -
  have "(0::int) \<le> 0" "(0::int) \<le> 1439" "0 < length [station_A, station_B, station_C]"
    by simp_all
  from window_counts_le_day_counts [OF this, of buckets_AB] show ?thesis
    by (simp add: traffic_AB_0 traffic_AB_all)
qed

text \<open>
  Claim C2, as amended. When the tables were built by the bucketing pass from trips whose
  stamps are all valid, every trip's \<open>start_station_id\<close> and \<open>end_station_id\<close> is the
  \<open>short_name\<close> of a station of the list, and no two stations of the list share a
  \<open>short_name\<close>, then over the records of \<open>computeStationTraffic(stations, -1)\<close> the
  \<open>departures\<close> sum to the number of trips, and so do the \<open>arrivals\<close>.
\<close>

theorem day_counts_sum_to_trips:
  assumes "\<forall>t\<in>set trips. valid_minute (start_minute t) \<and> valid_minute (end_minute t)"
    and "\<forall>t\<in>set trips. start_station_id t \<in> short_name ` set stations \<and>
                        end_station_id t \<in> short_name ` set stations"
    and "distinct (map short_name stations)"
  shows "\<exists>globals. trips_forEach initial_buckets trips = Inr globals \<and>
    sum_list (map departures (computeStationTraffic globals stations (-1))) = length trips \<and>
    sum_list (map arrivals (computeStationTraffic globals stations (-1))) = length trips"
proof -
  let ?d = "pushed start_minute empty_table trips"
  let ?a = "pushed end_minute empty_table trips"
  let ?g = "\<lparr>departuresByMinute = ?d, arrivalsByMinute = ?a\<rparr>"
  have run: "trips_forEach initial_buckets trips = Inr ?g"
    using assms(1) by (rule trips_forEach_initial)
  have md: "mset (concat ?d) = mset trips"
    using mset_concat_pushed [of trips start_minute empty_table] assms(1)
    by (simp add: length_empty_table concat_empty_table)
  have ma: "mset (concat ?a) = mset trips"
    using mset_concat_pushed [of trips end_minute empty_table] assms(1)
    by (simp add: length_empty_table concat_empty_table)
  have d: "dep_count ?g (-1) s = length (filter (\<lambda>t. start_station_id t = short_name s) trips)" for s
    by (simp add: dep_count_def filterByMinute_def length_filter_mset [OF md])
  have a: "arr_count ?g (-1) s = length (filter (\<lambda>t. end_station_id t = short_name s) trips)" for s
    by (simp add: arr_count_def filterByMinute_def length_filter_mset [OF ma])
  have "sum_list (map departures (computeStationTraffic ?g stations (-1))) =
      sum_list (map (\<lambda>s. length (filter (\<lambda>t. start_station_id t = short_name s) trips)) stations)"
    by (simp add: computeStationTraffic_counts comp_def station.extend_def
        station_traffic.fields_def d)
  also have "\<dots> = length trips"
    using assms(2,3) by (intro sum_counts) simp_all
  finally have sd: "sum_list (map departures (computeStationTraffic ?g stations (-1))) = length trips" .
  have "sum_list (map arrivals (computeStationTraffic ?g stations (-1))) =
      sum_list (map (\<lambda>s. length (filter (\<lambda>t. end_station_id t = short_name s) trips)) stations)"
    by (simp add: computeStationTraffic_counts comp_def station.extend_def
        station_traffic.fields_def a)
  also have "\<dots> = length trips"
    using assms(2,3) by (intro sum_counts) simp_all
  finally have sa: "sum_list (map arrivals (computeStationTraffic ?g stations (-1))) = length trips" .
  show ?thesis using run sd sa by (intro exI [of _ ?g]) simp
qed

theorem day_counts_sum_to_trips_witness:
  "valid_minute (start_minute trip_AB) \<and> valid_minute (end_minute trip_AB) \<and>
   start_station_id trip_AB \<in> short_name ` set [station_A, station_B, station_C] \<and>
   end_station_id trip_AB \<in> short_name ` set [station_A, station_B, station_C] \<and>
   distinct (map short_name [station_A, station_B, station_C]) \<and>
   trips_forEach initial_buckets [trip_AB] = Inr buckets_AB \<and>
   sum_list (map departures (computeStationTraffic buckets_AB [station_A, station_B, station_C] (-1)))
     = length [trip_AB] \<and>
   sum_list (map arrivals (computeStationTraffic buckets_AB [station_A, station_B, station_C] (-1)))
     = length [trip_AB]"
proof -
  have v: "\<forall>t\<in>set [trip_AB]. valid_minute (start_minute t) \<and> valid_minute (end_minute t)"
    by (simp add: start_minute_AB end_minute_AB)
  have s: "\<forall>t\<in>set [trip_AB]. start_station_id t \<in> short_name ` set [station_A, station_B, station_C] \<and>
                        end_station_id t \<in> short_name ` set [station_A, station_B, station_C]"
    by (simp add: AB_defs)
  have d: "distinct (map short_name [station_A, station_B, station_C])"
    by (simp add: AB_defs)
  from day_counts_sum_to_trips [OF v s d] show ?thesis
    using v s d by (auto simp: trips_forEach_AB)
qed

text \<open>Without the distinct names the claim fails: with station \<open>A\<close> listed twice, the
  one trip from \<open>A\<close> to \<open>B\<close> is counted as a departure in both records.\<close>

theorem duplicate_station_counted_twice:
  "trips_forEach initial_buckets [trip_AB] = Inr buckets_AB \<and>
   start_station_id trip_AB \<in> short_name ` set [station_A, station_A, station_B] \<and>
   end_station_id trip_AB \<in> short_name ` set [station_A, station_A, station_B] \<and>
   sum_list (map departures (computeStationTraffic buckets_AB [station_A, station_A, station_B] (-1)))
     = 2 \<and>
   length [trip_AB] = 1"
  by (simp add: trips_forEach_AB traffic_AAB_all) (simp add: AB_defs)


section \<open>The store: what a call allocates and what it leaves alone\<close>

lemma unchanged_refl: "unchanged s s"
  by (simp add: unchanged_def)

lemma unchanged_trans: "unchanged s s1 \<Longrightarrow> unchanged s1 s2 \<Longrightarrow> unchanged s s2"
  by (auto simp: unchanged_def intro: prefix_order.trans)

lemma unchanged_length: "unchanged s s' \<Longrightarrow> length (heap s) \<le> length (heap s')"
  by (simp add: unchanged_def prefix_length_le)

lemma unchanged_nth: "unchanged s s' \<Longrightarrow> r < length (heap s) \<Longrightarrow> heap s' ! r = heap s ! r"
  by (auto simp: unchanged_def prefix_def nth_append)

lemma unchanged_take: "unchanged s s' \<Longrightarrow> take (length (heap s)) (heap s') = heap s"
  by (auto simp: unchanged_def prefix_def)

lemma alloc_allocates: "alloc s v = (r, s') \<Longrightarrow> allocates s r s'"
  by (auto simp: alloc_def allocates_def unchanged_def)

lemma allocates_trans_left: "unchanged s s1 \<Longrightarrow> allocates s1 r s2 \<Longrightarrow> allocates s r s2"
  using unchanged_length [of s s1] by (auto simp: allocates_def intro: unchanged_trans)

lemma slice_ref_allocates: "slice_ref s a i j = Some (r, s') \<Longrightarrow> allocates s r s'"
  by (auto simp: slice_ref_def split: option.splits intro: alloc_allocates)

lemma slice_from_ref_allocates: "slice_from_ref s a i = Some (r, s') \<Longrightarrow> allocates s r s'"
  by (auto simp: slice_from_ref_def split: option.splits intro: alloc_allocates)

lemma concat_ref_allocates: "concat_ref s a b = Some (r, s') \<Longrightarrow> allocates s r s'"
  by (auto simp: concat_ref_def split: option.splits intro: alloc_allocates)

lemma flat_ref_allocates: "flat_ref s a = Some (r, s') \<Longrightarrow> allocates s r s'"
  by (auto simp: flat_ref_def split: option.splits intro: alloc_allocates)

lemma allocates_unchanged: "allocates s r s' \<Longrightarrow> unchanged s s'"
  by (simp add: allocates_def)

lemma filterByMinute_ref_allocates:
  assumes "filterByMinute_ref s a m = Some (r, s')"
  shows "allocates s r s'"
proof (cases "m = -1")
  case True
  then show ?thesis using assms by (simp add: filterByMinute_ref_def flat_ref_allocates)
next
  case False
  let ?lo = "js_rem (m - 60 + 1440) 1440" and ?hi = "js_rem (m + 60) 1440"
  show ?thesis
  proof (cases "?lo > ?hi")
    case True
    with False assms obtain b s1 c s2 d s3 where
      "slice_from_ref s a ?lo = Some (b, s1)" "slice_ref s1 a 0 ?hi = Some (c, s2)"
      "concat_ref s2 b c = Some (d, s3)" "flat_ref s3 d = Some (r, s')"
      by (auto simp: filterByMinute_ref_def Let_def split: option.splits)
    then have "unchanged s s1" "unchanged s1 s2" "unchanged s2 s3" "allocates s3 r s'"
      by (auto dest: slice_from_ref_allocates slice_ref_allocates concat_ref_allocates
          flat_ref_allocates allocates_unchanged)
    then show ?thesis by (blast intro: unchanged_trans allocates_trans_left)
  next
    case lh: False
    with False assms obtain w s1 where
      "slice_ref s a ?lo ?hi = Some (w, s1)" "flat_ref s1 w = Some (r, s')"
      by (auto simp: filterByMinute_ref_def Let_def split: option.splits)
    then have "unchanged s s1" "allocates s1 r s'"
      by (auto dest: slice_ref_allocates flat_ref_allocates allocates_unchanged)
    then show ?thesis by (rule allocates_trans_left)
  qed
qed

lemma traffic_record_allocates:
  "traffic_record dm am s r = Some (r', s') \<Longrightarrow> allocates s r' s'"
  by (auto simp: traffic_record_def Let_def split: option.splits obj.splits
      intro: alloc_allocates)

lemma map_ref_allocates:
  assumes "\<And>s r r' s'. f s r = Some (r', s') \<Longrightarrow> allocates s r' s'"
    and "map_ref f s rs = Some (rs', s')"
  shows "unchanged s s' \<and> (\<forall>r'\<in>set rs'. length (heap s) \<le> r' \<and> r' < length (heap s'))"
  using assms(2)
proof (induction rs arbitrary: s rs')
  case Nil
  then show ?case by (simp add: unchanged_refl)
next
  case (Cons r rs)
  from Cons.prems obtain r1 s1 rs1 where
    f: "f s r = Some (r1, s1)" and m: "map_ref f s1 rs = Some (rs1, s')" and e: "rs' = r1 # rs1"
    by (auto split: option.splits)
  from assms(1) [OF f] have a: "allocates s r1 s1" .
  from Cons.IH [OF m] have
    ih: "unchanged s1 s'" "\<forall>r'\<in>set rs1. length (heap s1) \<le> r' \<and> r' < length (heap s')"
    by simp_all
  have "unchanged s s'"
    using a ih(1) by (auto simp: allocates_def intro: unchanged_trans)
  moreover have "length (heap s) \<le> r1 \<and> r1 < length (heap s')"
    using a unchanged_length [OF ih(1)] by (auto simp: allocates_def)
  moreover have "\<forall>r'\<in>set rs1. length (heap s) \<le> r' \<and> r' < length (heap s')"
    using ih(2) a unchanged_length [of s s1] by (auto simp: allocates_def)
  ultimately show ?case by (simp add: e)
qed

lemma array_map_allocates:
  assumes "\<And>s r r' s'. f s r = Some (r', s') \<Longrightarrow> allocates s r' s'"
    and "array_map s a f = Some (out, s')"
  shows "allocates s out s' \<and> (\<forall>r'\<in>set (refs_of (heap s') out). length (heap s) \<le> r' \<and> r' < length (heap s'))"
proof -
  from assms(2) obtain rs rs' s1 where
    m: "map_ref f s rs = Some (rs', s1)" and al: "alloc s1 (Array rs') = (out, s')"
    by (auto simp: array_map_def split: option.splits)
  from map_ref_allocates [OF assms(1) m] have
    u: "unchanged s s1" and fr: "\<forall>r'\<in>set rs'. length (heap s) \<le> r' \<and> r' < length (heap s1)"
    by simp_all
  have a: "allocates s1 out s'" using al by (rule alloc_allocates)
  have "refs_of (heap s') out = rs'"
    using al by (auto simp: alloc_def refs_of_def array_at_def deref_def)
  moreover have "length (heap s1) \<le> length (heap s')"
    using a by (auto simp: allocates_def dest: unchanged_length)
  ultimately show ?thesis
    using u a fr by (auto intro: allocates_trans_left)
qed

lemma computeStationTraffic_ref_allocates:
  assumes "computeStationTraffic_ref s stations timeFilter = Some (out, s')"
  shows "allocates s out s' \<and>
    (\<forall>r'\<in>set (refs_of (heap s') out). length (heap s) \<le> r' \<and> r' < length (heap s'))"
proof -
  from assms obtain deps s1 arrs s2 where
    d: "filterByMinute_ref s (departuresByMinute_ref s) timeFilter = Some (deps, s1)" and
    a: "filterByMinute_ref s1 (arrivalsByMinute_ref s1) timeFilter = Some (arrs, s2)" and
    m: "array_map s2 stations
          (traffic_record
             (rollup (refs_of (heap s1) deps) length
                (\<lambda>d. map_option start_station_id (trip_at (heap s1) d)))
             (rollup (refs_of (heap s2) arrs) length
                (\<lambda>d. map_option end_station_id (trip_at (heap s2) d)))) = Some (out, s')"
    by (auto simp: computeStationTraffic_ref_def split: option.splits)
  have u: "unchanged s s2"
    using filterByMinute_ref_allocates [OF d] filterByMinute_ref_allocates [OF a]
    by (auto simp: allocates_def intro: unchanged_trans)
  from array_map_allocates [OF traffic_record_allocates m] have
    "allocates s2 out s'"
    "\<forall>r'\<in>set (refs_of (heap s') out). length (heap s2) \<le> r' \<and> r' < length (heap s')"
    by simp_all
  then show ?thesis
    using u unchanged_length [OF u] by (auto intro: allocates_trans_left)
qed

lemma deref_unchanged: "unchanged s s' \<Longrightarrow> deref (heap s) r = Some v \<Longrightarrow> deref (heap s') r = Some v"
  using unchanged_nth [of s s' r] unchanged_length [of s s']
  by (auto simp: deref_def split: if_splits)

lemma array_at_unchanged:
  "unchanged s s' \<Longrightarrow> array_at (heap s) r = Some rs \<Longrightarrow> array_at (heap s') r = Some rs"
  by (auto simp: array_at_def split: option.splits obj.splits dest: deref_unchanged)

lemma trip_at_unchanged:
  "unchanged s s' \<Longrightarrow> trip_at (heap s) r = Some t \<Longrightarrow> trip_at (heap s') r = Some t"
  by (auto simp: trip_at_def split: option.splits obj.splits dest: deref_unchanged)

lemma station_at_unchanged:
  "unchanged s s' \<Longrightarrow> station_at (heap s) r = Some t \<Longrightarrow> station_at (heap s') r = Some t"
  by (auto simp: station_at_def split: option.splits obj.splits dest: deref_unchanged)

lemma traffic_at_unchanged:
  "unchanged s s' \<Longrightarrow> traffic_at (heap s) r = Some t \<Longrightarrow> traffic_at (heap s') r = Some t"
  by (auto simp: traffic_at_def split: option.splits obj.splits dest: deref_unchanged)

lemma alloc_deref: "alloc s v = (r, s') \<Longrightarrow> deref (heap s') r = Some v"
  by (auto simp: alloc_def deref_def)

lemma alloc_array_at: "alloc s (Array rs) = (r, s') \<Longrightarrow> array_at (heap s') r = Some rs"
  by (auto simp: array_at_def dest: alloc_deref)

lemma slice_ref_Some:
  assumes "array_at (heap s) a = Some bs"
  shows "\<exists>r s'. slice_ref s a i j = Some (r, s') \<and> array_at (heap s') r = Some (slice bs i j)"
  using assms alloc_array_at [of s "slice bs i j"]
  by (cases "alloc s (Array (slice bs i j))") (simp add: slice_ref_def)

lemma slice_from_ref_Some:
  assumes "array_at (heap s) a = Some bs"
  shows "\<exists>r s'. slice_from_ref s a i = Some (r, s') \<and> array_at (heap s') r = Some (slice_from bs i)"
  using assms alloc_array_at [of s "slice_from bs i"]
  by (cases "alloc s (Array (slice_from bs i))") (simp add: slice_from_ref_def)

lemma concat_ref_Some:
  assumes "array_at (heap s) a = Some xs" "array_at (heap s) b = Some ys"
  shows "\<exists>r s'. concat_ref s a b = Some (r, s') \<and> array_at (heap s') r = Some (xs @ ys)"
  using assms alloc_array_at [of s "xs @ ys"]
  by (cases "alloc s (Array (xs @ ys))") (simp add: concat_ref_def)

lemma flat_ref_Some:
  assumes "array_at (heap s) a = Some bs" "\<forall>b\<in>set bs. array_at (heap s) b = Some (f b)"
  shows "\<exists>r s'. flat_ref s a = Some (r, s') \<and> array_at (heap s') r = Some (concat (map f bs))"
proof -
  have m: "map (\<lambda>r. case array_at (heap s) r of Some es \<Rightarrow> es | None \<Rightarrow> [r]) bs = map f bs"
    using assms(2) by (intro map_cong) simp_all
  show ?thesis
    using assms(1) alloc_array_at [of s "concat (map f bs)"]
    by (cases "alloc s (Array (concat (map f bs)))") (simp add: flat_ref_def m)
qed

lemma set_slice: "set (slice xs i j) \<subseteq> set xs"
  unfolding slice_def Let_def by (meson set_take_subset set_drop_subset subset_trans)

lemma set_slice_from: "set (slice_from xs i) \<subseteq> set xs"
  by (simp add: slice_from_def set_slice)

lemma map_slice: "map f (slice xs i j) = slice (map f xs) i j"
  by (simp add: slice_def Let_def take_map drop_map)

lemma map_slice_from: "map f (slice_from xs i) = slice_from (map f xs) i"
  by (simp add: slice_from_def map_slice)

lemma map_filterByMinute:
  "map f (filterByMinute tripsByMinute m) = filterByMinute (map (map f) tripsByMinute) m"
  by (simp add: filterByMinute_def Let_def map_concat map_slice map_slice_from)

lemma filterByMinute_ref_Some:
  assumes a: "array_at (heap s) a = Some bs"
    and bs: "\<forall>b\<in>set bs. array_at (heap s) b = Some (f b)"
  shows "\<exists>r s'. filterByMinute_ref s a m = Some (r, s') \<and>
     array_at (heap s') r = Some (filterByMinute (map f bs) m)"
proof (cases "m = -1")
  case True
  then show ?thesis
    using flat_ref_Some [OF a bs]
    by (simp add: filterByMinute_ref_def filterByMinute_def)
next
  case False
  let ?lo = "js_rem (m - 60 + 1440) 1440" and ?hi = "js_rem (m + 60) 1440"
  show ?thesis
  proof (cases "?lo > ?hi")
    case True
    from slice_from_ref_Some [OF a] obtain r1 s1 where
      1: "slice_from_ref s a ?lo = Some (r1, s1)" "array_at (heap s1) r1 = Some (slice_from bs ?lo)"
      by blast
    have u1: "unchanged s s1"
      using 1(1) by (auto dest: slice_from_ref_allocates allocates_unchanged)
    from slice_ref_Some [OF array_at_unchanged [OF u1 a]] obtain r2 s2 where
      2: "slice_ref s1 a 0 ?hi = Some (r2, s2)" "array_at (heap s2) r2 = Some (slice bs 0 ?hi)"
      by blast
    have u2: "unchanged s1 s2"
      using 2(1) by (auto dest: slice_ref_allocates allocates_unchanged)
    from concat_ref_Some [OF array_at_unchanged [OF u2 1(2)] 2(2)] obtain r3 s3 where
      3: "concat_ref s2 r1 r2 = Some (r3, s3)"
         "array_at (heap s3) r3 = Some (slice_from bs ?lo @ slice bs 0 ?hi)"
      by blast
    have u3: "unchanged s2 s3"
      using 3(1) by (auto dest: concat_ref_allocates allocates_unchanged)
    have u: "unchanged s s3"
      using u1 u2 u3 by (blast intro: unchanged_trans)
    have "\<forall>b\<in>set (slice_from bs ?lo @ slice bs 0 ?hi). array_at (heap s3) b = Some (f b)"
      using bs set_slice [of bs 0 ?hi] set_slice_from [of bs ?lo]
      by (auto intro: array_at_unchanged [OF u])
    from flat_ref_Some [OF 3(2) this] show ?thesis
      using False True 1 2 3
      by (simp add: filterByMinute_ref_def filterByMinute_def Let_def map_slice map_slice_from)
  next
    case lh: False
    from slice_ref_Some [OF a] obtain r1 s1 where
      1: "slice_ref s a ?lo ?hi = Some (r1, s1)" "array_at (heap s1) r1 = Some (slice bs ?lo ?hi)"
      by blast
    have u1: "unchanged s s1"
      using 1(1) by (auto dest: slice_ref_allocates allocates_unchanged)
    have "\<forall>b\<in>set (slice bs ?lo ?hi). array_at (heap s1) b = Some (f b)"
      using bs set_slice [of bs ?lo ?hi] by (auto intro: array_at_unchanged [OF u1])
    from flat_ref_Some [OF 1(2) this] show ?thesis
      using False lh 1
      by (simp add: filterByMinute_ref_def filterByMinute_def Let_def map_slice)
  qed
qed

lemma set_filterByMinute: "set (filterByMinute tripsByMinute m) \<subseteq> set (concat tripsByMinute)"
proof -
  have "set (concat (slice tripsByMinute i j)) \<subseteq> set (concat tripsByMinute)" for i j
    using set_slice [of tripsByMinute i j] by auto
  moreover have "set (concat (slice_from tripsByMinute i)) \<subseteq> set (concat tripsByMinute)" for i
    using set_slice_from [of tripsByMinute i] by auto
  ultimately show ?thesis
    by (simp add: filterByMinute_def Let_def)
qed

lemma is_trip_array_refs:
  assumes "is_trip_array h b"
  shows "array_at h b = Some (refs_of h b)" and "\<forall>r\<in>set (refs_of h b). trip_at h r \<noteq> None"
  using assms by (auto simp: is_trip_array_def refs_of_def list_all_iff split: option.splits)

lemma is_table_refs:
  assumes "is_table h a"
  shows "array_at h a = Some (refs_of h a)" and "\<forall>b\<in>set (refs_of h a). is_trip_array h b"
  using assms by (auto simp: is_table_def refs_of_def list_all_iff split: option.splits)

lemma is_station_array_refs:
  assumes "is_station_array h a"
  shows "array_at h a = Some (refs_of h a)" and "\<forall>r\<in>set (refs_of h a). station_at h r \<noteq> None"
  using assms by (auto simp: is_station_array_def refs_of_def list_all_iff split: option.splits)

lemma count_refs:
  assumes "\<forall>d\<in>set W. trip_at h d = Some (g d)"
  shows "(case rollup W length (\<lambda>d. map_option key (trip_at h d)) (Some k) of
            Some n \<Rightarrow> n | None \<Rightarrow> 0) =
         length (filter (\<lambda>t. key t = k) (map g W))"
proof -
  have "filter (\<lambda>d. map_option key (trip_at h d) = Some k) W = filter (\<lambda>d. key (g d) = k) W"
    using assms by (intro filter_cong) auto
  then show ?thesis
    by (simp add: rollup_length filter_map comp_def)
qed

lemma trip_at_unchanged_eq:
  "unchanged s s' \<Longrightarrow> trip_at (heap s) r \<noteq> None \<Longrightarrow> trip_at (heap s') r = trip_at (heap s) r"
  using trip_at_unchanged [of s s' r] by (cases "trip_at (heap s) r") simp_all

lemma station_at_unchanged_eq:
  "unchanged s s' \<Longrightarrow> station_at (heap s) r \<noteq> None \<Longrightarrow>
   station_at (heap s') r = station_at (heap s) r"
  using station_at_unchanged [of s s' r] by (cases "station_at (heap s) r") simp_all

text \<open>The window query on a table of the store returns a new array holding the trips
  that the query on the table's contents returns.\<close>

lemma filterByMinute_ref_table:
  assumes "is_table (heap s) a"
  shows "\<exists>r s'. filterByMinute_ref s a m = Some (r, s') \<and> allocates s r s' \<and>
    array_at (heap s') r = Some (refs_of (heap s') r) \<and>
    (\<forall>d\<in>set (refs_of (heap s') r). trip_at (heap s') d \<noteq> None) \<and>
    trips_of (heap s') r = filterByMinute (table_of (heap s) a) m"
proof -
  let ?h = "heap s"
  let ?bs = "refs_of ?h a"
  note t = is_table_refs [OF assms]
  have bs: "\<forall>b\<in>set ?bs. array_at ?h b = Some (refs_of ?h b)"
    using t(2) by (auto dest: is_trip_array_refs(1))
  from filterByMinute_ref_Some [OF t(1) bs, of m] obtain r s' where
    run: "filterByMinute_ref s a m = Some (r, s')" and
    res: "array_at (heap s') r = Some (filterByMinute (map (refs_of ?h) ?bs) m)"
    by blast
  let ?W = "filterByMinute (map (refs_of ?h) ?bs) m"
  have al: "allocates s r s'" using run by (rule filterByMinute_ref_allocates)
  then have u: "unchanged s s'" by (rule allocates_unchanged)
  have W: "refs_of (heap s') r = ?W" using res by (simp add: refs_of_def)
  have tr: "\<forall>d\<in>set ?W. trip_at ?h d \<noteq> None"
    using set_filterByMinute [of "map (refs_of ?h) ?bs" m] t(2)
    by (auto dest!: is_trip_array_refs(2))
  have tr': "\<forall>d\<in>set ?W. trip_at (heap s') d = Some (the (trip_at ?h d))"
    using tr by (simp add: trip_at_unchanged_eq [OF u])
  have "trips_of (heap s') r = map (\<lambda>d. the (trip_at ?h d)) ?W"
    unfolding trips_of_def W using tr' by (intro map_cong) simp_all
  also have "\<dots> = filterByMinute (table_of ?h a) m"
    by (simp add: map_filterByMinute table_of_def trips_of_def [abs_def] comp_def)
  finally show ?thesis
    using run al res W tr' by (intro exI [of _ r] exI [of _ s']) simp
qed

lemma traffic_record_station:
  assumes "station_at (heap s) r = Some st"
  shows "\<exists>r' s'. traffic_record dm am s r = Some (r', s') \<and> allocates s r' s' \<and>
    traffic_at (heap s') r' =
      Some (station.extend st (station_traffic.fields
        (case dm (Some (short_name st)) of Some n \<Rightarrow> n | None \<Rightarrow> 0)
        (case am (Some (short_name st)) of Some n \<Rightarrow> n | None \<Rightarrow> 0)
        ((case dm (Some (short_name st)) of Some n \<Rightarrow> n | None \<Rightarrow> 0) +
         (case am (Some (short_name st)) of Some n \<Rightarrow> n | None \<Rightarrow> 0))))"
proof -
  let ?v = "Traffic (station.extend st (station_traffic.fields
        (case dm (Some (short_name st)) of Some n \<Rightarrow> n | None \<Rightarrow> 0)
        (case am (Some (short_name st)) of Some n \<Rightarrow> n | None \<Rightarrow> 0)
        ((case dm (Some (short_name st)) of Some n \<Rightarrow> n | None \<Rightarrow> 0) +
         (case am (Some (short_name st)) of Some n \<Rightarrow> n | None \<Rightarrow> 0))))"
  obtain r' s' where al: "alloc s ?v = (r', s')" by (cases "alloc s ?v")
  have "deref (heap s) r = Some (Station st)"
    using assms by (auto simp: station_at_def split: option.splits obj.splits)
  then have "traffic_record dm am s r = Some (r', s')"
    using al by (simp add: traffic_record_def Let_def)
  moreover have "traffic_at (heap s') r' = Some (station.extend st (station_traffic.fields
        (case dm (Some (short_name st)) of Some n \<Rightarrow> n | None \<Rightarrow> 0)
        (case am (Some (short_name st)) of Some n \<Rightarrow> n | None \<Rightarrow> 0)
        ((case dm (Some (short_name st)) of Some n \<Rightarrow> n | None \<Rightarrow> 0) +
         (case am (Some (short_name st)) of Some n \<Rightarrow> n | None \<Rightarrow> 0))))"
    using alloc_deref [OF al] by (simp add: traffic_at_def)
  ultimately show ?thesis using alloc_allocates [OF al] by blast
qed

lemma map_ref_stations:
  assumes "\<forall>r\<in>set rs. station_at (heap s) r \<noteq> None"
    and "\<And>s r st. station_at (heap s) r = Some st \<Longrightarrow>
      \<exists>r' s'. f s r = Some (r', s') \<and> allocates s r' s' \<and> traffic_at (heap s') r' = Some (F st)"
  shows "\<exists>rs' s'. map_ref f s rs = Some (rs', s') \<and> unchanged s s' \<and>
    map (traffic_at (heap s')) rs' = map (\<lambda>r. Some (F (the (station_at (heap s) r)))) rs"
  using assms(1)
proof (induction rs arbitrary: s)
  case Nil
  then show ?case by (simp add: unchanged_refl)
next
  case (Cons r rs)
  from Cons.prems obtain st where st: "station_at (heap s) r = Some st" by auto
  from assms(2) [OF st] obtain r1 s1 where
    f: "f s r = Some (r1, s1)" and a: "allocates s r1 s1" and
    t: "traffic_at (heap s1) r1 = Some (F st)" by blast
  have u: "unchanged s s1" using a by (rule allocates_unchanged)
  have keep: "\<forall>x\<in>set rs. station_at (heap s1) x = station_at (heap s) x"
    using Cons.prems by (simp add: station_at_unchanged_eq [OF u])
  then have "\<forall>x\<in>set rs. station_at (heap s1) x \<noteq> None" using Cons.prems by simp
  from Cons.IH [OF this] obtain rs1 s' where
    m: "map_ref f s1 rs = Some (rs1, s')" and u1: "unchanged s1 s'" and
    c: "map (traffic_at (heap s')) rs1 = map (\<lambda>r. Some (F (the (station_at (heap s1) r)))) rs"
    by blast
  have "map (\<lambda>r. Some (F (the (station_at (heap s1) r)))) rs =
        map (\<lambda>r. Some (F (the (station_at (heap s) r)))) rs"
    using keep by (intro map_cong) simp_all
  moreover have "traffic_at (heap s') r1 = Some (F st)"
    using t by (rule traffic_at_unchanged [OF u1])
  ultimately show ?case
    using f m c st unchanged_trans [OF u u1] by simp
qed

lemma is_trip_array_unchanged:
  assumes "unchanged s s'" "is_trip_array (heap s) b"
  shows "is_trip_array (heap s') b" and "trips_of (heap s') b = trips_of (heap s) b"
proof -
  note t = is_trip_array_refs [OF assms(2)]
  have a: "array_at (heap s') b = Some (refs_of (heap s) b)"
    using t(1) by (rule array_at_unchanged [OF assms(1)])
  then have r: "refs_of (heap s') b = refs_of (heap s) b" by (simp add: refs_of_def)
  have e: "\<forall>r\<in>set (refs_of (heap s) b). trip_at (heap s') r = trip_at (heap s) r"
    using t(2) by (simp add: trip_at_unchanged_eq [OF assms(1)])
  show "is_trip_array (heap s') b"
    using a e t(2) by (simp add: is_trip_array_def list_all_iff)
  show "trips_of (heap s') b = trips_of (heap s) b"
    unfolding trips_of_def r using e by (intro map_cong) simp_all
qed

lemma is_table_unchanged:
  assumes "unchanged s s'" "is_table (heap s) a"
  shows "is_table (heap s') a" and "table_of (heap s') a = table_of (heap s) a"
proof -
  note t = is_table_refs [OF assms(2)]
  have a: "array_at (heap s') a = Some (refs_of (heap s) a)"
    using t(1) by (rule array_at_unchanged [OF assms(1)])
  then have r: "refs_of (heap s') a = refs_of (heap s) a" by (simp add: refs_of_def)
  show "is_table (heap s') a"
    using a t(2) is_trip_array_unchanged(1) [OF assms(1)]
    by (simp add: is_table_def list_all_iff)
  show "table_of (heap s') a = table_of (heap s) a"
    unfolding table_of_def r using t(2) is_trip_array_unchanged(2) [OF assms(1)]
    by (intro map_cong) simp_all
qed

lemma is_station_array_unchanged:
  assumes "unchanged s s'" "is_station_array (heap s) a"
  shows "is_station_array (heap s') a" and "stations_of (heap s') a = stations_of (heap s) a"
proof -
  note t = is_station_array_refs [OF assms(2)]
  have a: "array_at (heap s') a = Some (refs_of (heap s) a)"
    using t(1) by (rule array_at_unchanged [OF assms(1)])
  then have r: "refs_of (heap s') a = refs_of (heap s) a" by (simp add: refs_of_def)
  have e: "\<forall>r\<in>set (refs_of (heap s) a). station_at (heap s') r = station_at (heap s) r"
    using t(2) by (simp add: station_at_unchanged_eq [OF assms(1)])
  show "is_station_array (heap s') a"
    using a e t(2) by (simp add: is_station_array_def list_all_iff)
  show "stations_of (heap s') a = stations_of (heap s) a"
    unfolding stations_of_def r using e by (intro map_cong) simp_all
qed

lemma traffic_of_unchanged:
  assumes "unchanged s s'" "array_at (heap s) a = Some rs"
    "\<forall>r\<in>set rs. traffic_at (heap s) r \<noteq> None"
  shows "traffic_of (heap s') a = traffic_of (heap s) a"
proof -
  have "array_at (heap s') a = Some rs"
    using assms(2) by (rule array_at_unchanged [OF assms(1)])
  then have r: "refs_of (heap s') a = rs" "refs_of (heap s) a = rs"
    using assms(2) by (simp_all add: refs_of_def)
  have "\<forall>r\<in>set rs. traffic_at (heap s') r = traffic_at (heap s) r"
    using assms(3) traffic_at_unchanged [OF assms(1)] by fastforce
  then show ?thesis
    unfolding traffic_of_def r by (intro map_cong) simp_all
qed

lemma array_map_stations:
  assumes "is_station_array (heap s) a"
    and "\<And>s r st. station_at (heap s) r = Some st \<Longrightarrow>
      \<exists>r' s'. f s r = Some (r', s') \<and> allocates s r' s' \<and> traffic_at (heap s') r' = Some (F st)"
  shows "\<exists>out s'. array_map s a f = Some (out, s') \<and>
    array_at (heap s') out = Some (refs_of (heap s') out) \<and>
    (\<forall>r\<in>set (refs_of (heap s') out). traffic_at (heap s') r \<noteq> None) \<and>
    traffic_of (heap s') out = map F (stations_of (heap s) a)"
proof -
  note t = is_station_array_refs [OF assms(1)]
  from map_ref_stations [of "refs_of (heap s) a" s f F, OF t(2) assms(2)] obtain rs' s1 where
    m: "map_ref f s (refs_of (heap s) a) = Some (rs', s1)" and
    c: "map (traffic_at (heap s1)) rs' =
        map (\<lambda>r. Some (F (the (station_at (heap s) r)))) (refs_of (heap s) a)"
    by blast
  obtain out s' where al: "alloc s1 (Array rs') = (out, s')" by (cases "alloc s1 (Array rs')")
  have run: "array_map s a f = Some (out, s')"
    using t(1) m al by (simp add: array_map_def)
  have o: "array_at (heap s') out = Some rs'" using al by (rule alloc_array_at)
  then have r: "refs_of (heap s') out = rs'" by (simp add: refs_of_def)
  have u: "unchanged s1 s'" using alloc_allocates [OF al] by (rule allocates_unchanged)
  have some: "\<forall>r\<in>set rs'. traffic_at (heap s1) r \<noteq> None"
  proof
    fix r assume "r \<in> set rs'"
    then have "traffic_at (heap s1) r \<in> set (map (traffic_at (heap s1)) rs')" by simp
    then show "traffic_at (heap s1) r \<noteq> None" unfolding c by auto
  qed
  have keep: "\<forall>r\<in>set rs'. traffic_at (heap s') r = traffic_at (heap s1) r"
    using some traffic_at_unchanged [OF u] by fastforce
  have "map (traffic_at (heap s')) rs' = map (traffic_at (heap s1)) rs'"
    using keep by (intro map_cong) simp_all
  then have "map (\<lambda>r. the (traffic_at (heap s') r)) rs' =
      map the (map (\<lambda>r. Some (F (the (station_at (heap s) r)))) (refs_of (heap s) a))"
    unfolding c [symmetric] by (simp add: comp_def)
  then have "traffic_of (heap s') out = map F (stations_of (heap s) a)"
    by (simp add: traffic_of_def r stations_of_def comp_def)
  then show ?thesis
    using run o r some keep by (intro exI [of _ out] exI [of _ s']) simp
qed

lemma well_formed_unchanged:
  assumes "unchanged s s'" "well_formed s stations"
  shows "well_formed s' stations" "buckets_of s' = buckets_of s"
    "stations_of (heap s') stations = stations_of (heap s) stations"
  using assms is_table_unchanged [OF assms(1)] is_station_array_unchanged [OF assms(1)]
  by (auto simp: well_formed_def buckets_of_def unchanged_def)

lemma computeStationTraffic_ref_refines:
  assumes "well_formed s stations"
  shows "\<exists>out s'. computeStationTraffic_ref s stations timeFilter = Some (out, s') \<and>
    array_at (heap s') out = Some (refs_of (heap s') out) \<and>
    (\<forall>r\<in>set (refs_of (heap s') out). traffic_at (heap s') r \<noteq> None) \<and>
    traffic_of (heap s') out =
      computeStationTraffic (buckets_of s) (stations_of (heap s) stations) timeFilter"
proof -
  let ?G = "buckets_of s"
  from assms have wf: "is_table (heap s) (departuresByMinute_ref s)"
    "is_table (heap s) (arrivalsByMinute_ref s)" "is_station_array (heap s) stations"
    by (simp_all add: well_formed_def)
  from filterByMinute_ref_table [OF wf(1), of timeFilter] obtain deps s1 where
    d: "filterByMinute_ref s (departuresByMinute_ref s) timeFilter = Some (deps, s1)"
       "allocates s deps s1"
       "\<forall>d\<in>set (refs_of (heap s1) deps). trip_at (heap s1) d \<noteq> None"
       "trips_of (heap s1) deps = filterByMinute (departuresByMinute ?G) timeFilter"
    by (auto simp: buckets_of_def)
  have u1: "unchanged s s1" using d(2) by (rule allocates_unchanged)
  have a1: "arrivalsByMinute_ref s1 = arrivalsByMinute_ref s"
    using u1 by (simp add: unchanged_def)
  have t1: "is_table (heap s1) (arrivalsByMinute_ref s1)"
    "table_of (heap s1) (arrivalsByMinute_ref s1) = arrivalsByMinute ?G"
    using is_table_unchanged [OF u1 wf(2)] by (simp_all add: a1 buckets_of_def)
  from filterByMinute_ref_table [OF t1(1), of timeFilter] obtain arrs s2 where
    a: "filterByMinute_ref s1 (arrivalsByMinute_ref s1) timeFilter = Some (arrs, s2)"
       "allocates s1 arrs s2"
       "\<forall>d\<in>set (refs_of (heap s2) arrs). trip_at (heap s2) d \<noteq> None"
       "trips_of (heap s2) arrs = filterByMinute (arrivalsByMinute ?G) timeFilter"
    by (auto simp: t1(2))
  have u2: "unchanged s s2"
    using u1 allocates_unchanged [OF a(2)] by (rule unchanged_trans)
  let ?dm = "rollup (refs_of (heap s1) deps) length
               (\<lambda>d. map_option start_station_id (trip_at (heap s1) d))"
  let ?am = "rollup (refs_of (heap s2) arrs) length
               (\<lambda>d. map_option end_station_id (trip_at (heap s2) d))"
  let ?F = "\<lambda>st. station.extend st (station_traffic.fields (dep_count ?G timeFilter st)
               (arr_count ?G timeFilter st)
               (dep_count ?G timeFilter st + arr_count ?G timeFilter st))"
  have d4: "map (\<lambda>d. the (trip_at (heap s1) d)) (refs_of (heap s1) deps) =
      filterByMinute (departuresByMinute ?G) timeFilter"
    using d(4) unfolding trips_of_def .
  have a4: "map (\<lambda>d. the (trip_at (heap s2) d)) (refs_of (heap s2) arrs) =
      filterByMinute (arrivalsByMinute ?G) timeFilter"
    using a(4) unfolding trips_of_def .
  have dc: "(case ?dm (Some (short_name st)) of Some n \<Rightarrow> n | None \<Rightarrow> 0) =
      dep_count ?G timeFilter st" for st
    unfolding dep_count_def d4 [symmetric] by (rule count_refs) (use d(3) in auto)
  have ac: "(case ?am (Some (short_name st)) of Some n \<Rightarrow> n | None \<Rightarrow> 0) =
      arr_count ?G timeFilter st" for st
    unfolding arr_count_def a4 [symmetric] by (rule count_refs) (use a(3) in auto)
  have f: "\<exists>r' s'. traffic_record ?dm ?am s0 r = Some (r', s') \<and> allocates s0 r' s' \<and>
      traffic_at (heap s') r' = Some (?F st)"
    if "station_at (heap s0) r = Some st" for s0 r st
    using traffic_record_station [OF that, of ?dm ?am] by (simp only: dc ac)
  note st2 = is_station_array_unchanged [OF u2 wf(3)]
  from array_map_stations [of s2 stations "traffic_record ?dm ?am" ?F, OF st2(1) f]
  obtain out s' where
    m: "array_map s2 stations (traffic_record ?dm ?am) = Some (out, s')"
       "array_at (heap s') out = Some (refs_of (heap s') out)"
       "\<forall>r\<in>set (refs_of (heap s') out). traffic_at (heap s') r \<noteq> None"
       "traffic_of (heap s') out = map ?F (stations_of (heap s2) stations)"
    by blast
  have run: "computeStationTraffic_ref s stations timeFilter = Some (out, s')"
    using d(1) a(1) m(1) by (simp add: computeStationTraffic_ref_def)
  have "traffic_of (heap s') out =
      computeStationTraffic ?G (stations_of (heap s) stations) timeFilter"
    using m(4) by (simp add: st2(2) computeStationTraffic_counts)
  then show ?thesis
    using run m(2,3) by (intro exI [of _ out] exI [of _ s']) simp
qed

lemma well_formed_small: "well_formed small_store 8"
  by (simp add: well_formed_def small_store_def is_table_def is_trip_array_def is_station_array_def
     array_at_def deref_def trip_at_def station_at_def)

lemma is_table_small: "is_table (heap small_store) 3"
  using well_formed_small by (simp add: well_formed_def small_store_def)

lemma run_small: "computeStationTraffic_ref small_store 8 (-1) = Some (14, small_store_1)"
  by code_simp

lemma run_small_again:
  "computeStationTraffic_ref small_store_1 8 (-1) = Some (20, small_store_2)"
  by code_simp

section \<open>The store: frame and repeated calls\<close>

text \<open>
  Claim C9. On a store whose two global tables are tables of trips and whose station list
  is an array of stations, \<open>computeStationTraffic\<close> returns, and so does \<open>filterByMinute\<close>
  on any table of the store; after either call every object that was in the store is
  what it was (the old heap is an initial segment of the new one), the two global
  variables hold the same references, the tables hold the same trips, the station list
  holds the same references to the same stations, and the array returned is new. The
  records in the array that \<open>computeStationTraffic\<close> returns are new objects as well.
\<close>

theorem queries_leave_store_unchanged:
  assumes "well_formed s stations" "is_table (heap s) tripsByMinute"
  shows "(\<exists>out s'. computeStationTraffic_ref s stations timeFilter = Some (out, s') \<and>
            take (length (heap s)) (heap s') = heap s \<and>
            departuresByMinute_ref s' = departuresByMinute_ref s \<and>
            arrivalsByMinute_ref s' = arrivalsByMinute_ref s \<and>
            buckets_of s' = buckets_of s \<and>
            refs_of (heap s') stations = refs_of (heap s) stations \<and>
            stations_of (heap s') stations = stations_of (heap s) stations \<and>
            length (heap s) \<le> out \<and>
            (\<forall>r\<in>set (refs_of (heap s') out). length (heap s) \<le> r)) \<and>
         (\<exists>out s'. filterByMinute_ref s tripsByMinute minute = Some (out, s') \<and>
            take (length (heap s)) (heap s') = heap s \<and>
            departuresByMinute_ref s' = departuresByMinute_ref s \<and>
            arrivalsByMinute_ref s' = arrivalsByMinute_ref s \<and>
            table_of (heap s') tripsByMinute = table_of (heap s) tripsByMinute \<and>
            length (heap s) \<le> out)"
proof
  from computeStationTraffic_ref_refines [OF assms(1), of timeFilter] obtain out s' where
    run: "computeStationTraffic_ref s stations timeFilter = Some (out, s')" by blast
  from computeStationTraffic_ref_allocates [OF run] have
    al: "allocates s out s'" and
    fr: "\<forall>r\<in>set (refs_of (heap s') out). length (heap s) \<le> r" by simp_all
  have u: "unchanged s s'" using al by (rule allocates_unchanged)
  have st: "is_station_array (heap s) stations" using assms(1) by (simp add: well_formed_def)
  have "array_at (heap s') stations = Some (refs_of (heap s) stations)"
    using is_station_array_refs(1) [OF st] by (rule array_at_unchanged [OF u])
  then have "refs_of (heap s') stations = refs_of (heap s) stations"
    by (simp add: refs_of_def)
  then show "\<exists>out s'. computeStationTraffic_ref s stations timeFilter = Some (out, s') \<and>
            take (length (heap s)) (heap s') = heap s \<and>
            departuresByMinute_ref s' = departuresByMinute_ref s \<and>
            arrivalsByMinute_ref s' = arrivalsByMinute_ref s \<and>
            buckets_of s' = buckets_of s \<and>
            refs_of (heap s') stations = refs_of (heap s) stations \<and>
            stations_of (heap s') stations = stations_of (heap s) stations \<and>
            length (heap s) \<le> out \<and>
            (\<forall>r\<in>set (refs_of (heap s') out). length (heap s) \<le> r)"
    using run al fr unchanged_take [OF u] well_formed_unchanged(2,3) [OF u assms(1)] u
    by (intro exI [of _ out] exI [of _ s']) (simp add: allocates_def unchanged_def)
next
  from filterByMinute_ref_table [OF assms(2), of minute] obtain out s' where
    run: "filterByMinute_ref s tripsByMinute minute = Some (out, s')" and
    al: "allocates s out s'" by blast
  have u: "unchanged s s'" using al by (rule allocates_unchanged)
  show "\<exists>out s'. filterByMinute_ref s tripsByMinute minute = Some (out, s') \<and>
            take (length (heap s)) (heap s') = heap s \<and>
            departuresByMinute_ref s' = departuresByMinute_ref s \<and>
            arrivalsByMinute_ref s' = arrivalsByMinute_ref s \<and>
            table_of (heap s') tripsByMinute = table_of (heap s) tripsByMinute \<and>
            length (heap s) \<le> out"
    using run al unchanged_take [OF u] is_table_unchanged(2) [OF u assms(2)] u
    by (intro exI [of _ out] exI [of _ s']) (simp add: allocates_def unchanged_def)
qed

theorem queries_leave_store_unchanged_witness:
  "well_formed small_store 8 \<and> is_table (heap small_store) 3 \<and>
   computeStationTraffic_ref small_store 8 (-1) = Some (14, small_store_1) \<and>
   take (length (heap small_store)) (heap small_store_1) = heap small_store \<and>
   buckets_of small_store_1 = buckets_of small_store \<and>
   stations_of (heap small_store_1) 8 = stations_of (heap small_store) 8 \<and>
   length (heap small_store) \<le> 14 \<and>
   refs_of (heap small_store_1) 14 = [11, 12, 13]"
proof -
  from queries_leave_store_unchanged [OF well_formed_small is_table_small, of "-1" 0]
  have "take (length (heap small_store)) (heap small_store_1) = heap small_store \<and>
   buckets_of small_store_1 = buckets_of small_store \<and>
   stations_of (heap small_store_1) 8 = stations_of (heap small_store) 8 \<and>
   length (heap small_store) \<le> 14"
    by (auto simp: run_small)
  moreover have "refs_of (heap small_store_1) 14 = [11, 12, 13]"
    by code_simp
  ultimately show ?thesis
    using well_formed_small is_table_small run_small by simp
qed

text \<open>
  Claim C8. On such a store, calling \<open>computeStationTraffic\<close> twice in a row with the
  same station list and the same time filter returns two arrays holding the same records,
  the ones the aggregator computes from the contents of the tables and of the station
  list; the second call leaves the result of the first intact. More generally, two stores
  whose tables hold the same trips and whose station lists hold the same stations give
  arrays holding the same records.
\<close>

theorem same_inputs_same_output:
  assumes "well_formed s stations"
  shows "(\<exists>out1 s1 out2 s2.
            computeStationTraffic_ref s stations timeFilter = Some (out1, s1) \<and>
            computeStationTraffic_ref s1 stations timeFilter = Some (out2, s2) \<and>
            traffic_of (heap s1) out1 =
              computeStationTraffic (buckets_of s) (stations_of (heap s) stations) timeFilter \<and>
            traffic_of (heap s2) out2 = traffic_of (heap s1) out1 \<and>
            traffic_of (heap s2) out1 = traffic_of (heap s1) out1) \<and>
         (\<forall>t stations'.
            well_formed t stations' \<and> buckets_of t = buckets_of s \<and>
            stations_of (heap t) stations' = stations_of (heap s) stations \<longrightarrow>
            (\<exists>out s' out' t'.
               computeStationTraffic_ref s stations timeFilter = Some (out, s') \<and>
               computeStationTraffic_ref t stations' timeFilter = Some (out', t') \<and>
               traffic_of (heap t') out' = traffic_of (heap s') out))"
proof (intro conjI allI impI)
  from computeStationTraffic_ref_refines [OF assms, of timeFilter] obtain out1 s1 where
    r1: "computeStationTraffic_ref s stations timeFilter = Some (out1, s1)"
        "array_at (heap s1) out1 = Some (refs_of (heap s1) out1)"
        "\<forall>r\<in>set (refs_of (heap s1) out1). traffic_at (heap s1) r \<noteq> None"
        "traffic_of (heap s1) out1 =
           computeStationTraffic (buckets_of s) (stations_of (heap s) stations) timeFilter"
    by blast
  have u1: "unchanged s s1"
    using computeStationTraffic_ref_allocates [OF r1(1)] by (simp add: allocates_def)
  note wf1 = well_formed_unchanged [OF u1 assms]
  from computeStationTraffic_ref_refines [OF wf1(1), of timeFilter] obtain out2 s2 where
    r2: "computeStationTraffic_ref s1 stations timeFilter = Some (out2, s2)"
        "traffic_of (heap s2) out2 =
           computeStationTraffic (buckets_of s1) (stations_of (heap s1) stations) timeFilter"
    by blast
  have u2: "unchanged s1 s2"
    using computeStationTraffic_ref_allocates [OF r2(1)] by (simp add: allocates_def)
  have "traffic_of (heap s2) out1 = traffic_of (heap s1) out1"
    using u2 r1(2,3) by (rule traffic_of_unchanged)
  then show "\<exists>out1 s1 out2 s2.
            computeStationTraffic_ref s stations timeFilter = Some (out1, s1) \<and>
            computeStationTraffic_ref s1 stations timeFilter = Some (out2, s2) \<and>
            traffic_of (heap s1) out1 =
              computeStationTraffic (buckets_of s) (stations_of (heap s) stations) timeFilter \<and>
            traffic_of (heap s2) out2 = traffic_of (heap s1) out1 \<and>
            traffic_of (heap s2) out1 = traffic_of (heap s1) out1"
    using r1(1,4) r2 wf1(2,3)
    by (intro exI [of _ out1] exI [of _ s1] exI [of _ out2] exI [of _ s2]) simp
next
  fix t stations'
  assume t: "well_formed t stations' \<and> buckets_of t = buckets_of s \<and>
            stations_of (heap t) stations' = stations_of (heap s) stations"
  from computeStationTraffic_ref_refines [OF assms, of timeFilter] obtain out s' where
    r1: "computeStationTraffic_ref s stations timeFilter = Some (out, s')"
        "traffic_of (heap s') out =
           computeStationTraffic (buckets_of s) (stations_of (heap s) stations) timeFilter"
    by blast
  from t computeStationTraffic_ref_refines [of t stations' timeFilter] obtain out' t' where
    r2: "computeStationTraffic_ref t stations' timeFilter = Some (out', t')"
        "traffic_of (heap t') out' =
           computeStationTraffic (buckets_of t) (stations_of (heap t) stations') timeFilter"
    by blast
  show "\<exists>out s' out' t'.
               computeStationTraffic_ref s stations timeFilter = Some (out, s') \<and>
               computeStationTraffic_ref t stations' timeFilter = Some (out', t') \<and>
               traffic_of (heap t') out' = traffic_of (heap s') out"
    using r1 r2 t by (intro exI [of _ out] exI [of _ s'] exI [of _ out'] exI [of _ t']) simp
qed

theorem same_inputs_same_output_witness:
  "well_formed small_store 8 \<and>
   computeStationTraffic_ref small_store 8 (-1) = Some (14, small_store_1) \<and>
   computeStationTraffic_ref small_store_1 8 (-1) = Some (20, small_store_2) \<and>
   traffic_of (heap small_store_2) 20 = traffic_of (heap small_store_1) 14 \<and>
   traffic_of (heap small_store_2) 14 = traffic_of (heap small_store_1) 14 \<and>
   traffic_of (heap small_store_1) 14 =
     computeStationTraffic (buckets_of small_store) (stations_of (heap small_store) 8) (-1)"
proof -
  from same_inputs_same_output [OF well_formed_small, of "-1", THEN conjunct1]
  obtain out1 s1 out2 s2 where
    h: "computeStationTraffic_ref small_store 8 (-1) = Some (out1, s1)"
       "computeStationTraffic_ref s1 8 (-1) = Some (out2, s2)"
       "traffic_of (heap s1) out1 =
          computeStationTraffic (buckets_of small_store) (stations_of (heap small_store) 8) (-1)"
       "traffic_of (heap s2) out2 = traffic_of (heap s1) out1"
       "traffic_of (heap s2) out1 = traffic_of (heap s1) out1"
    by blast
  have e: "out1 = 14" "s1 = small_store_1" using h(1) by (simp_all add: run_small)
  have "out2 = 20" "s2 = small_store_2" using h(2) by (simp_all add: e run_small_again)
  then show ?thesis
    using well_formed_small run_small run_small_again h(3,4,5) by (simp add: e)
qed

end
